theory Spec2Isabelle
  imports Complex_Main "HOL-Library.AList"
begin

section \<open>The lotto draw cache of \<^verbatim>\<open>src/app/api/lotto/route.ts\<close>\<close>

text \<open>
  The route handler mirrors the draws of an upstream HTTP source into a process-wide cache
  and serves frequency counts. The embedding follows the source function by function.
  Everything the code does beyond returning a value is explicit:
  \<^item> the upstream, the clock, the worker scheduler and two ECMAScript number/string
    conversions are fields of an environment \<open>env\<close> that every function receives;
  \<^item> the global cache, the log of requests sent, the log of back-off sleeps and the number
    of clock reads form the \<open>state\<close>, passed in and returned;
  \<^item> a rejected promise or a thrown exception is \<open>Inl e\<close>, a resolved one \<open>Inr v\<close>;
  \<^item> a loop that the source does not bound returns an \<open>option\<close>: \<open>None\<close> is a run
    that never ends.
\<close>

subsection \<open>Values\<close>

text \<open>
  A JavaScript number: \<open>NaN\<close>, the two infinities, or a finite value. Finite doubles are
  read as the reals they denote; \<open>+0\<close> and \<open>-0\<close> are not told apart.
\<close>

datatype number = NaN | PosInfinity | NegInfinity | Fin real

text \<open>What \<^verbatim>\<open>JSON.parse\<close> can return, and \<^verbatim>\<open>undefined\<close> for an absent property.\<close>

datatype jsval =
    JUndefined
  | JNull
  | JBool bool
  | JNum number
  | JStr string
  | JArr "jsval list"
  | JObj "(string \<times> jsval) list"

text \<open>
  The exceptions of the file. \<open>name\<close> is the \<^verbatim>\<open>name\<close> property that the \<^verbatim>\<open>catch\<close>
  blocks compare with \<^verbatim>\<open>"HtmlResponseError"\<close>.
\<close>

datatype error =
    AbortError                \<comment> \<open>the 8 s timer aborted the request\<close>
  | NetworkError              \<comment> \<open>\<^verbatim>\<open>fetch\<close> or the body read failed (a \<^verbatim>\<open>TypeError\<close>)\<close>
  | HttpStatusError nat       \<comment> \<open>\<^verbatim>\<open>new Error(`HTTP ${response.status}`)\<close>\<close>
  | HtmlResponseError         \<comment> \<open>\<^verbatim>\<open>new HtmlResponseError()\<close>\<close>
  | SyntaxError               \<comment> \<open>\<^verbatim>\<open>JSON.parse\<close> threw, JSON content type\<close>
  | NonJsonResponse           \<comment> \<open>\<^verbatim>\<open>new Error("Non-JSON response")\<close>\<close>
  | TypeError                 \<comment> \<open>a property read on \<^verbatim>\<open>null\<close> or \<^verbatim>\<open>undefined\<close>\<close>

fun name :: "error \<Rightarrow> string" where
  "name AbortError = ''AbortError''"
| "name NetworkError = ''TypeError''"
| "name (HttpStatusError s) = ''Error''"
| "name HtmlResponseError = ''HtmlResponseError''"
| "name SyntaxError = ''SyntaxError''"
| "name NonJsonResponse = ''Error''"
| "name TypeError = ''TypeError''"

text \<open>The two ways a \<^verbatim>\<open>fetch\<close> or a body read can reject.\<close>

datatype failure = TimedOut | Unreachable

fun failure_error :: "failure \<Rightarrow> error" where
  "failure_error TimedOut = AbortError"
| "failure_error Unreachable = NetworkError"

text \<open>
  What the upstream does with one request. The text of the body, as \<^verbatim>\<open>response.text()\<close>
  gives it, is a JavaScript string: the list of its UTF-16 code units. \<open>json\<close> is what
  \<^verbatim>\<open>JSON.parse\<close> makes of that text, \<open>None\<close> when it throws.
\<close>

type_synonym utf16 = "int list"

datatype reply =
    FetchFailed failure
  | HttpResponse (ok: bool) (status: nat) (content_type: "string option")
                 (body: "failure + utf16") (json: "jsval option")

record Draw =
  drwNo :: number
  drwNoDate :: string
  numbers :: "number list"
  bonus :: number

text \<open>
  The \<^verbatim>\<open>Cache\<close> type, with the \<^verbatim>\<open>missing\<close> property that \<^verbatim>\<open>updateCache\<close> adds by a cast.
  \<open>draws\<close> is the \<^verbatim>\<open>Map\<close> in insertion order. The \<^verbatim>\<open>inFlight\<close> promise is not a field:
  the calls of this model do not overlap, each starts after the previous one has settled
  and the workers it started have ended, so \<^verbatim>\<open>inFlight\<close> is \<^verbatim>\<open>undefined\<close> whenever a
  call starts and again when it ends.
\<close>

record Cache =
  updatedAt :: int
  latest :: int
  draws :: "(int \<times> Draw) list"
  blockedUntil :: "int option"
  missing :: "int list option"

record env =
  StringToNumber :: "string \<Rightarrow> number"
    \<comment> \<open>ECMAScript \<^verbatim>\<open>StringToNumber\<close>\<close>
  NumberToString :: "number \<Rightarrow> string"
    \<comment> \<open>ECMAScript \<^verbatim>\<open>Number::toString\<close>\<close>
  upstream :: "int \<Rightarrow> nat \<Rightarrow> reply"
    \<comment> \<open>\<open>upstream no k\<close>: the reply to the request for draw \<open>no\<close> that follows \<open>k\<close> earlier
        requests for the same draw\<close>
  clock :: "nat \<Rightarrow> nat"
    \<comment> \<open>\<open>clock k\<close>: what the read of \<^verbatim>\<open>Date.now()\<close> that follows \<open>k\<close> earlier reads returns\<close>
  sched :: "int list \<Rightarrow> int list \<Rightarrow> nat"
    \<comment> \<open>which worker of a pool goes on next, its reply having come or its timer having
        fired, from the request log and the draws that the workers are fetching\<close>

record state =
  cache :: Cache          \<comment> \<open>\<^verbatim>\<open>globalThis.__lottoCache\<close>\<close>
  sent :: "int list"      \<comment> \<open>the draws requested so far, the last one first\<close>
  slept :: "nat list"     \<comment> \<open>the back-off delays waited so far, the last one first\<close>
  ticks :: nat            \<comment> \<open>how often \<^verbatim>\<open>Date.now()\<close> has been read\<close>

subsection \<open>Constants\<close>

definition CACHE_TTL_MS :: int where
  "CACHE_TTL_MS = 1000 * 60 * 60 * 12"

definition MAX_DRAW_GUESS :: int where
  "MAX_DRAW_GUESS = 10000"

definition CONCURRENCY :: nat where
  "CONCURRENCY = 6"

definition RETRIES :: nat where
  "RETRIES = 2"

definition BLOCK_TTL_MS :: int where
  "BLOCK_TTL_MS = 1000 * 60 * 15"

text \<open>
  \<^verbatim>\<open>getCache\<close> builds the singleton on first use. The value it builds is a constant, so the
  model starts from it: \<open>cache\<close> of the initial state is \<open>new_cache\<close>.
\<close>

definition new_cache :: Cache where
  "new_cache = \<lparr>updatedAt = 0, latest = 0, draws = [], blockedUntil = None, missing = None\<rparr>"

definition new_state :: state where
  "new_state = \<lparr>cache = new_cache, sent = [], slept = [], ticks = 0\<rparr>"

definition getCache :: "state \<Rightarrow> Cache" where
  "getCache st = cache st"

definition now :: "env \<Rightarrow> state \<Rightarrow> int \<times> state" where
  "now E st = (int (clock E (ticks st)), st\<lparr>ticks := Suc (ticks st)\<rparr>)"

subsection \<open>Strings and coercions\<close>

text \<open>The code units of a string of ASCII characters.\<close>

definition units :: "string \<Rightarrow> utf16" where
  "units s = map of_char s"

text \<open>
  The code units that \<^verbatim>\<open>String.prototype.trim\<close> strips, the ECMAScript \<^verbatim>\<open>WhiteSpace\<close> and
  \<^verbatim>\<open>LineTerminator\<close>: TAB, LF, VT, FF, CR, SP, NBSP (U+00A0), the other space separators
  U+1680, U+2000 to U+200A, U+202F, U+205F and U+3000, the line and paragraph separators
  U+2028 and U+2029, and the byte order mark U+FEFF.
\<close>

definition is_space :: "int \<Rightarrow> bool" where
  "is_space u =
     (u \<in> set [0x09, 0x0A, 0x0B, 0x0C, 0x0D, 0x20, 0xA0, 0x1680, 0x2028, 0x2029, 0x202F,
               0x205F, 0x3000, 0xFEFF]
      \<or> (0x2000 \<le> u \<and> u \<le> 0x200A))"

text \<open>\<^verbatim>\<open>String.prototype.trim\<close>.\<close>

definition trim :: "utf16 \<Rightarrow> utf16" where
  "trim s = rev (dropWhile is_space (rev (dropWhile is_space s)))"

fun startsWith :: "'a list \<Rightarrow> 'a list \<Rightarrow> bool" where
  "startsWith s [] = True"
| "startsWith [] (c # cs) = False"
| "startsWith (x # xs) (c # cs) = (x = c \<and> startsWith xs cs)"

fun includes_str :: "'a list \<Rightarrow> 'a list \<Rightarrow> bool" where
  "includes_str [] t = (t = [])"
| "includes_str (x # xs) t = (startsWith (x # xs) t \<or> includes_str xs t)"

fun join :: "string list \<Rightarrow> string" where
  "join [] = []"
| "join [s] = s"
| "join (s # t # ts) = s @ '','' @ join (t # ts)"

text \<open>\<^verbatim>\<open>String(v)\<close>. An array joins its elements with commas, \<^verbatim>\<open>null\<close> and \<^verbatim>\<open>undefined\<close>
  elements as empty strings.\<close>

fun ToString :: "env \<Rightarrow> jsval \<Rightarrow> string" and elementString :: "env \<Rightarrow> jsval \<Rightarrow> string" where
  "ToString E JUndefined = ''undefined''"
| "ToString E JNull = ''null''"
| "ToString E (JBool b) = (if b then ''true'' else ''false'')"
| "ToString E (JNum n) = NumberToString E n"
| "ToString E (JStr s) = s"
| "ToString E (JArr xs) = join (map (elementString E) xs)"
| "ToString E (JObj kvs) = ''[object Object]''"
| "elementString E JUndefined = []"
| "elementString E JNull = []"
| "elementString E (JBool b) = ToString E (JBool b)"
| "elementString E (JNum n) = ToString E (JNum n)"
| "elementString E (JStr s) = ToString E (JStr s)"
| "elementString E (JArr xs) = ToString E (JArr xs)"
| "elementString E (JObj kvs) = ToString E (JObj kvs)"

text \<open>\<^verbatim>\<open>Number(v)\<close>. An array or object goes through its string.\<close>

fun ToNumber :: "env \<Rightarrow> jsval \<Rightarrow> number" where
  "ToNumber E JUndefined = NaN"
| "ToNumber E JNull = Fin 0"
| "ToNumber E (JBool b) = (if b then Fin 1 else Fin 0)"
| "ToNumber E (JNum n) = n"
| "ToNumber E (JStr s) = StringToNumber E s"
| "ToNumber E (JArr xs) = StringToNumber E (ToString E (JArr xs))"
| "ToNumber E (JObj kvs) = StringToNumber E (ToString E (JObj kvs))"

text \<open>
  \<^verbatim>\<open>data.k\<close> for the property names the file reads (none of them an array index or a
  built-in property): the own property of an object, \<^verbatim>\<open>undefined\<close> on any other value.
  The read throws on \<^verbatim>\<open>null\<close> and \<^verbatim>\<open>undefined\<close>: that case is a branch of \<open>readDraw\<close>.
\<close>

fun getProp :: "jsval \<Rightarrow> string \<Rightarrow> jsval" where
  "getProp (JObj kvs) k = (case map_of kvs k of None \<Rightarrow> JUndefined | Some v \<Rightarrow> v)"
| "getProp v k = JUndefined"

subsection \<open>\<^verbatim>\<open>fetchJson\<close>, \<^verbatim>\<open>fetchDrawOnce\<close>, \<^verbatim>\<open>fetchDraw\<close>\<close>

text \<open>
  \<^verbatim>\<open>fetch(url, ...)\<close> for draw \<open>no\<close>: the request is sent and logged in \<open>sent\<close>. The
  reply is the one that the upstream gives to it.
\<close>

definition request :: "env \<Rightarrow> int \<Rightarrow> state \<Rightarrow> reply \<times> state" where
  "request E no st = (upstream E no (count_list (sent st) no), st\<lparr>sent := no # sent st\<rparr>)"

text \<open>What \<^verbatim>\<open>fetchJson\<close> makes of the reply, from \<^verbatim>\<open>response.headers.get\<close> on.\<close>

definition readJson :: "reply \<Rightarrow> error + jsval" where
  "readJson response =
     (case response of
        FetchFailed f \<Rightarrow> Inl (failure_error f)
      | HttpResponse ok' status' contentType body' json' \<Rightarrow>
          if \<not> ok' then Inl (HttpStatusError status')
          else (case body' of
                  Inl f \<Rightarrow> Inl (failure_error f)
                | Inr raw \<Rightarrow>
                    if startsWith (trim raw) (units ''<'') then Inl HtmlResponseError
                    else if includes_str (case contentType of None \<Rightarrow> [] | Some c \<Rightarrow> c)
                              ''application/json''
                    then (case json' of None \<Rightarrow> Inl SyntaxError | Some data \<Rightarrow> Inr data)
                    else (case json' of None \<Rightarrow> Inl NonJsonResponse | Some data \<Rightarrow> Inr data)))"

text \<open>\<^verbatim>\<open>fetchJson(`${API_BASE}${no}`)\<close>.\<close>

definition fetchJson :: "env \<Rightarrow> int \<Rightarrow> state \<Rightarrow> (error + jsval) \<times> state" where
  "fetchJson E no st =
     (case request E no st of (response, st') \<Rightarrow> (readJson response, st'))"

text \<open>Lines 85 to 105 of \<^verbatim>\<open>fetchDrawOnce\<close>: the payload read into a \<open>Draw\<close>.\<close>

definition readDraw :: "env \<Rightarrow> jsval \<Rightarrow> error + Draw option" where
  "readDraw E data =
     (if data = JNull \<or> data = JUndefined then Inl TypeError
      else if getProp data ''returnValue'' \<noteq> JStr ''success'' then Inr None
      else
        let nums = [ToNumber E (getProp data ''drwtNo1''), ToNumber E (getProp data ''drwtNo2''),
                    ToNumber E (getProp data ''drwtNo3''), ToNumber E (getProp data ''drwtNo4''),
                    ToNumber E (getProp data ''drwtNo5''), ToNumber E (getProp data ''drwtNo6'')];
            bonus' = ToNumber E (getProp data ''bnusNo'')
        in if list_ex (\<lambda>n. n = NaN) nums \<or> bonus' = NaN then Inr None
           else Inr (Some \<lparr>drwNo = ToNumber E (getProp data ''drwNo''),
                           drwNoDate = ToString E (getProp data ''drwNoDate''),
                           numbers = nums, bonus = bonus'\<rparr>))"

definition fetchDrawOnce :: "env \<Rightarrow> int \<Rightarrow> state \<Rightarrow> (error + Draw option) \<times> state" where
  "fetchDrawOnce E no st =
     (case fetchJson E no st of
        (Inl e, st') \<Rightarrow> (Inl e, st')
      | (Inr data, st') \<Rightarrow> (readDraw E data, st'))"

definition sleep :: "nat \<Rightarrow> state \<Rightarrow> state" where
  "sleep ms st = st\<lparr>slept := ms # slept st\<rparr>"

text \<open>The \<^verbatim>\<open>for\<close> loop of \<^verbatim>\<open>fetchDraw\<close>, entered at \<open>attempt\<close>.\<close>

function fetchDraw_from :: "env \<Rightarrow> int \<Rightarrow> nat \<Rightarrow> state \<Rightarrow> (error + Draw option) \<times> state" where
  "fetchDraw_from E no attempt st =
     (if attempt \<le> RETRIES then
        (case fetchDrawOnce E no st of
           (Inr d, st') \<Rightarrow> (Inr d, st')
         | (Inl e, st') \<Rightarrow>
             if name e = ''HtmlResponseError'' then (Inl e, st')
             else fetchDraw_from E no (attempt + 1) (sleep (250 * (attempt + 1)) st'))
      else (Inr None, st))"
  by pat_completeness auto
termination
  by (relation "measure (\<lambda>(E, no, attempt, st). Suc RETRIES - attempt)") auto

declare fetchDraw_from.simps [simp del]

definition fetchDraw :: "env \<Rightarrow> int \<Rightarrow> state \<Rightarrow> (error + Draw option) \<times> state" where
  "fetchDraw E no st = fetchDraw_from E no 0 st"

subsection \<open>\<^verbatim>\<open>findLatestDraw\<close>\<close>

text \<open>
  The first \<^verbatim>\<open>while (low <= high)\<close> loop, taken when the probe is not found, with the
  \<^verbatim>\<open>return Math.max(1, high)\<close> that follows it.
\<close>

function search_down :: "env \<Rightarrow> int \<Rightarrow> int \<Rightarrow> state \<Rightarrow> (error + int) \<times> state" where
  "search_down E low high st =
     (if low \<le> high then
        (let mid = (low + high) div 2 in
         case fetchDraw E mid st of
           (Inl e, st') \<Rightarrow> (Inl e, st')
         | (Inr (Some midDraw), st') \<Rightarrow> search_down E (mid + 1) high st'
         | (Inr None, st') \<Rightarrow> search_down E low (mid - 1) st')
      else (Inr (max 1 high), st))"
  by pat_completeness auto
termination
  by (relation "measure (\<lambda>(E, low, high, st). nat (high + 1 - low))") auto

declare search_down.simps [simp del]

text \<open>
  The \<^verbatim>\<open>while (high <= MAX_DRAW_GUESS)\<close> loop. It ends by the \<^verbatim>\<open>return low\<close> inside it,
  by its \<^verbatim>\<open>break\<close>, or by its condition; the last two leave \<open>low\<close> and \<open>high\<close> to the
  loop that follows. Nothing in the loop itself bounds it (from \<open>high = 0\<close> it
  probes draw 0 for as long as draw 0 is found), so \<open>None\<close> stands for a run without end.
\<close>

datatype doubling = Returned int | Bracket int int

partial_function (option) grow_high ::
  "env \<Rightarrow> int \<Rightarrow> int \<Rightarrow> state \<Rightarrow> ((error + doubling) \<times> state) option" where
  "grow_high E low high st =
     (if high \<le> MAX_DRAW_GUESS then
        (case fetchDraw E high st of
           (Inl e, st') \<Rightarrow> Some (Inl e, st')
         | (Inr (Some highDraw), st') \<Rightarrow>
             (let low' = high;
                  high' = min (high * 2) MAX_DRAW_GUESS
              in if low' = MAX_DRAW_GUESS then Some (Inr (Returned low'), st')
                 else grow_high E low' high' st')
         | (Inr None, st') \<Rightarrow> Some (Inr (Bracket low high), st'))
      else Some (Inr (Bracket low high), st))"

declare grow_high.simps [code]

text \<open>The \<^verbatim>\<open>while (low + 1 < high)\<close> loop with the final \<^verbatim>\<open>return low\<close>.\<close>

function bisect :: "env \<Rightarrow> int \<Rightarrow> int \<Rightarrow> state \<Rightarrow> (error + int) \<times> state" where
  "bisect E low high st =
     (if low + 1 < high then
        (let mid = (low + high) div 2 in
         case fetchDraw E mid st of
           (Inl e, st') \<Rightarrow> (Inl e, st')
         | (Inr (Some midDraw), st') \<Rightarrow> bisect E mid high st'
         | (Inr None, st') \<Rightarrow> bisect E low mid st')
      else (Inr low, st))"
  by pat_completeness auto
termination
  by (relation "measure (\<lambda>(E, low, high, st). nat (high - low))") auto

declare bisect.simps [simp del]

definition findLatestDraw :: "env \<Rightarrow> state \<Rightarrow> ((error + int) \<times> state) option" where
  "findLatestDraw E st =
     (let cache' = getCache st;
          probe = (if latest cache' > 0 then latest cache' else 1100)
      in case fetchDraw E probe st of
           (Inl e, st') \<Rightarrow> Some (Inl e, st')
         | (Inr None, st') \<Rightarrow> Some (search_down E 1 probe st')
         | (Inr (Some draw), st') \<Rightarrow>
             (case grow_high E probe (min (probe * 2) MAX_DRAW_GUESS) st' of
                None \<Rightarrow> None
              | Some (Inl e, st'') \<Rightarrow> Some (Inl e, st'')
              | Some (Inr (Returned low), st'') \<Rightarrow> Some (Inr low, st'')
              | Some (Inr (Bracket low high), st'') \<Rightarrow> Some (bisect E low high st'')))"

subsection \<open>\<^verbatim>\<open>fetchRange\<close>\<close>

text \<open>
  A worker of the pool is between two of its \<^verbatim>\<open>await\<close>s, inside the \<^verbatim>\<open>fetchDraw(no)\<close> that
  it called: it waits for the reply to the request that attempt \<open>attempt_no\<close> has sent, or,
  that attempt having failed, for the timer that \<^verbatim>\<open>fetchDraw\<close> set before the next one.
\<close>

datatype worker =
    Awaiting (draw_no: int) (attempt_no: nat) reply
  | Sleeping (draw_no: int) (attempt_no: nat)

text \<open>
  What the workers share: the counter \<^verbatim>\<open>current\<close>, the array \<^verbatim>\<open>missing\<close> (here \<open>missed\<close>)
  and the global state. \<open>workers\<close> are the workers that have not ended, and \<open>rejection\<close> is
  the error of the first worker that threw, the one \<^verbatim>\<open>Promise.all\<close> rejects with.
\<close>

record Pool =
  current :: int
  workers :: "worker list"
  missed :: "int list"
  rejection :: "error option"
  world :: state

definition drop_at :: "nat \<Rightarrow> 'a list \<Rightarrow> 'a list" where
  "drop_at k xs = take k xs @ drop (Suc k) xs"

text \<open>
  \<open>fetchDrawOnce\<close> from the reply on: \<open>readJson\<close>, then \<open>readDraw\<close>.
\<close>

definition received :: "env \<Rightarrow> reply \<Rightarrow> error + Draw option" where
  "received E response =
     (case readJson response of
        Inl e \<Rightarrow> Inl e
      | Inr data \<Rightarrow> readDraw E data)"

text \<open>
  The head of the worker's loop, which runs without interruption: the worker ends when
  \<^verbatim>\<open>current\<close> is past \<open>end\<close>; otherwise it takes \<open>no = current\<close>, increments \<^verbatim>\<open>current\<close> and
  calls \<^verbatim>\<open>fetchDraw(no)\<close>, which sends the request of attempt 0 before its first \<^verbatim>\<open>await\<close>.
\<close>

definition claim :: "env \<Rightarrow> int \<Rightarrow> Pool \<Rightarrow> worker option \<times> Pool" where
  "claim E end' p =
     (let no = current p in
      if no > end' then (None, p)
      else (case request E no (world p) of
              (response, st') \<Rightarrow>
                (Some (Awaiting no 0 response), p\<lparr>current := no + 1, world := st'\<rparr>)))"

text \<open>\<^verbatim>\<open>Array.from({ length: n }, async () => ...)\<close>: \<open>n\<close> workers are started in turn.\<close>

fun start_workers :: "env \<Rightarrow> int \<Rightarrow> nat \<Rightarrow> Pool \<Rightarrow> Pool" where
  "start_workers E end' 0 p = p"
| "start_workers E end' (Suc n) p =
     (case claim E end' p of
        (None, p') \<Rightarrow> start_workers E end' n p'
      | (Some w, p') \<Rightarrow> start_workers E end' n (p'\<lparr>workers := workers p' @ [w]\<rparr>))"

text \<open>\<^verbatim>\<open>if (draw) cache.draws.set(no, draw); else missing.push(no);\<close>\<close>

definition record_draw :: "int \<Rightarrow> Draw option \<Rightarrow> Pool \<Rightarrow> Pool" where
  "record_draw no draw p =
     (case draw of
        Some d \<Rightarrow>
          p\<lparr>world := (world p)\<lparr>cache := (cache (world p))\<lparr>draws :=
               AList.update no d (draws (cache (world p)))\<rparr>\<rparr>\<rparr>
      | None \<Rightarrow> p\<lparr>missed := missed p @ [no]\<rparr>)"

text \<open>Worker \<open>k\<close> is back at the head of its loop.\<close>

definition next_claim :: "env \<Rightarrow> int \<Rightarrow> nat \<Rightarrow> Pool \<Rightarrow> Pool" where
  "next_claim E end' k p =
     (case claim E end' p of
        (None, p') \<Rightarrow> p'\<lparr>workers := drop_at k (workers p')\<rparr>
      | (Some w, p') \<Rightarrow> p'\<lparr>workers := (workers p')[k := w]\<rparr>)"

text \<open>
  One worker goes on, up to its next \<^verbatim>\<open>await\<close>; the scheduler of the environment names
  it, from the requests sent so far and the draws that the workers are fetching.

  A worker whose reply has come reads it as \<^verbatim>\<open>fetchDrawOnce\<close> does. With a result, it
  records it and goes back to the head of its loop. With \<open>HtmlResponseError\<close>,
  \<^verbatim>\<open>fetchDraw\<close> rethrows and the worker ends; the first error thrown is the one that
  \<^verbatim>\<open>Promise.all\<close> rejects with, and the other workers go on. With another error,
  \<^verbatim>\<open>fetchDraw\<close> sets its timer.

  A worker whose timer has fired sends the request of the next attempt, or, past the last
  attempt, has \<^verbatim>\<open>null\<close> from \<^verbatim>\<open>fetchDraw\<close>.
\<close>

definition pool_step :: "env \<Rightarrow> int \<Rightarrow> Pool \<Rightarrow> Pool" where
  "pool_step E end' p =
     (let ws = workers p;
          k = sched E (sent (world p)) (map draw_no ws) mod length ws
      in case ws ! k of
           Awaiting no a response \<Rightarrow>
             (case received E response of
                Inr draw \<Rightarrow> next_claim E end' k (record_draw no draw p)
              | Inl e \<Rightarrow>
                  if name e = ''HtmlResponseError''
                  then p\<lparr>workers := drop_at k ws,
                         rejection := (case rejection p of None \<Rightarrow> Some e | Some e' \<Rightarrow> Some e')\<rparr>
                  else p\<lparr>workers := ws[k := Sleeping no a],
                         world := sleep (250 * (a + 1)) (world p)\<rparr>)
         | Sleeping no a \<Rightarrow>
             if a + 1 \<le> RETRIES
             then (case request E no (world p) of
                     (response, st') \<Rightarrow>
                       p\<lparr>workers := ws[k := Awaiting no (a + 1) response], world := st'\<rparr>)
             else next_claim E end' k (record_draw no None p))"

text \<open>What a worker still has before it: the attempts left, twice, and the reply in flight.\<close>

fun weight :: "worker \<Rightarrow> nat" where
  "weight (Awaiting no a response) = 2 * (Suc RETRIES - a) + 2"
| "weight (Sleeping no a) = 2 * (Suc RETRIES - a) + 1"

definition pool_size :: "int \<Rightarrow> Pool \<Rightarrow> nat" where
  "pool_size end' p =
     (2 * Suc RETRIES + 3) * (nat (end' + 1 - current p) + length (workers p))
     + sum_list (map weight (workers p))"

text \<open>The workers run until all have ended.\<close>

function run_workers :: "env \<Rightarrow> int \<Rightarrow> Pool \<Rightarrow> Pool" where
  "run_workers E end' p =
     (if workers p = [] then p else run_workers E end' (pool_step E end' p))"
  by pat_completeness auto
termination
proof (relation "measure (\<lambda>(E, end', p). pool_size end' p)", goal_cases)
  case 1
  show ?case by simp
next
  case (2 E end' p)
  have upd: "sum_list (map weight (xs[k := x])) + weight (xs ! k) = sum_list (map weight xs) + weight x"
    if "k < length xs" for xs :: "worker list" and k x
    using that
  proof (induction xs arbitrary: k)
    case Nil
    then show ?case by simp
  next
    case (Cons y ys)
    then show ?case by (cases k) auto
  qed
  have del: "sum_list (map weight (drop_at k xs)) + weight (xs ! k) = sum_list (map weight xs)"
    if "k < length xs" for xs :: "worker list" and k
    using that unfolding drop_at_def
  proof (induction xs arbitrary: k)
    case Nil
    then show ?case by simp
  next
    case (Cons y ys)
    then show ?case by (cases k) (auto simp: ac_simps)
  qed
  have len: "length (drop_at k xs) = length xs - 1" if "k < length xs" for xs :: "worker list" and k
    using that by (auto simp: drop_at_def)
  have w8: "weight w \<le> 2 * Suc RETRIES + 2" for w
    by (cases w) simp_all
  have w1: "0 < weight w" for w
    by (cases w) simp_all
  define ws where "ws = workers p"
  define k where "k = sched E (sent (world p)) (map draw_no ws) mod length ws"
  define c where "c = nat (end' + 1 - current p)"
  from \<open>workers p \<noteq> []\<close> have k: "k < length ws"
    by (simp add: k_def ws_def)
  then obtain m where m: "length ws = Suc m"
    by (cases "length ws") simp_all
  have step: "pool_step E end' p =
      (case ws ! k of
         Awaiting no a response \<Rightarrow>
           (case received E response of
              Inr draw \<Rightarrow> next_claim E end' k (record_draw no draw p)
            | Inl e \<Rightarrow>
                if name e = ''HtmlResponseError''
                then p\<lparr>workers := drop_at k ws,
                       rejection := (case rejection p of None \<Rightarrow> Some e | Some e' \<Rightarrow> Some e')\<rparr>
                else p\<lparr>workers := ws[k := Sleeping no a],
                       world := sleep (250 * (a + 1)) (world p)\<rparr>)
       | Sleeping no a \<Rightarrow>
           if a + 1 \<le> RETRIES
           then p\<lparr>workers := ws[k := Awaiting no (a + 1) (fst (request E no (world p)))],
                  world := snd (request E no (world p))\<rparr>
           else next_claim E end' k (record_draw no None p))"
    unfolding pool_step_def Let_def k_def ws_def case_prod_beta ..
  have size: "pool_size end' p = 9 * (c + Suc m) + sum_list (map weight ws)"
    by (simp add: pool_size_def RETRIES_def c_def ws_def [symmetric] m)
  have dropped: "pool_size end' q < pool_size end' p"
    if "workers q = drop_at k ws" "current q = current p" for q
    using that del [OF k] len [OF k]
    by (simp add: size) (simp add: pool_size_def RETRIES_def c_def m)
  have updated: "pool_size end' q < pool_size end' p"
    if "workers q = ws[k := w]" "current q = current p" "weight w < weight (ws ! k)" for q w
    using that upd [OF k, of w]
    by (simp add: size) (simp add: pool_size_def RETRIES_def c_def m)
  have nc: "pool_size end' (next_claim E end' k q) < pool_size end' p"
    if "workers q = ws" "current q = current p" for q
  proof (cases "current q > end'")
    case True
    with that have "pool_size end' (q\<lparr>workers := drop_at k (workers q)\<rparr>) < pool_size end' p"
      by (intro dropped) simp_all
    with True show ?thesis
      by (simp add: next_claim_def claim_def)
  next
    case False
    let ?w = "Awaiting (current q) 0 (fst (request E (current q) (world q)))"
    let ?q = "q\<lparr>current := current q + 1, world := snd (request E (current q) (world q)),
                workers := ws[k := ?w]\<rparr>"
    from False that have "c = Suc (nat (end' + 1 - current ?q))"
      by (simp add: c_def)
    with upd [OF k, of ?w] w8 [of ?w] w1 [of "ws ! k"]
    have "pool_size end' ?q < pool_size end' p"
      by (simp add: size) (simp add: pool_size_def RETRIES_def m)
    with False that show ?thesis
      by (simp add: next_claim_def claim_def Let_def case_prod_beta)
  qed
  have "pool_size end' (pool_step E end' p) < pool_size end' p"
  proof (cases "ws ! k")
    case (Awaiting no a response)
    show ?thesis
    proof (cases "received E response")
      case (Inr draw)
      have "pool_size end' (next_claim E end' k (record_draw no draw p)) < pool_size end' p"
        by (rule nc) (simp_all add: record_draw_def ws_def split: option.split)
      with Awaiting Inr show ?thesis
        by (simp add: step)
    next
      case (Inl e)
      show ?thesis
      proof (cases "name e = ''HtmlResponseError''")
        case True
        with Awaiting Inl show ?thesis
          by (simp add: step) (rule dropped, simp_all)
      next
        case False
        with Awaiting Inl show ?thesis
          by (simp add: step) (rule updated [of _ "Sleeping no a"], simp_all)
      qed
    qed
  next
    case (Sleeping no a)
    show ?thesis
    proof (cases "a + 1 \<le> RETRIES")
      case True
      with Sleeping show ?thesis
        by (simp add: step)
          (rule updated [of _ "Awaiting no (Suc a) (fst (request E no (world p)))"],
            simp_all add: RETRIES_def)
    next
      case False
      have "pool_size end' (next_claim E end' k (record_draw no None p)) < pool_size end' p"
        by (rule nc) (simp_all add: record_draw_def ws_def)
      with Sleeping False show ?thesis
        by (simp add: step)
    qed
  qed
  then show ?case by simp
qed

declare run_workers.simps [simp del]

text \<open>
  \<^verbatim>\<open>fetchRange(start, end, cache, missing)\<close>. \<^verbatim>\<open>await Promise.all(workers)\<close> resolves when
  every worker has ended, and the result is then the \<^verbatim>\<open>missing\<close> array. It rejects as soon
  as one worker throws; the other workers are not stopped by that, they go on fetching
  and writing to \<^verbatim>\<open>cache.draws\<close>. The state given with an error is the one they leave when
  the last of them has ended.
\<close>

definition fetchRange ::
  "env \<Rightarrow> int \<Rightarrow> int \<Rightarrow> int list \<Rightarrow> state \<Rightarrow> (error + int list) \<times> state" where
  "fetchRange E start end' missing' st =
     (let p = run_workers E end'
                (start_workers E end' CONCURRENCY
                   \<lparr>current = start, workers = [], missed = missing', rejection = None,
                    world = st\<rparr>)
      in (case rejection p of Some e \<Rightarrow> Inl e | None \<Rightarrow> Inr (missed p), world p))"

subsection \<open>\<^verbatim>\<open>updateCache\<close>\<close>

text \<open>
  The test \<^verbatim>\<open>cache.blockedUntil && Date.now() < cache.blockedUntil\<close>: the clock is read
  only when \<^verbatim>\<open>blockedUntil\<close> is truthy, that is set and not 0.
\<close>

definition stillBlocked :: "env \<Rightarrow> state \<Rightarrow> bool \<times> state" where
  "stillBlocked E st =
     (case blockedUntil (cache st) of
        None \<Rightarrow> (False, st)
      | Some b \<Rightarrow>
          if b = 0 then (False, st)
          else (let (t, st') = now E st in (t < b, st')))"

definition set_updatedAt :: "int \<Rightarrow> state \<Rightarrow> state" where
  "set_updatedAt t st = st\<lparr>cache := (cache st)\<lparr>updatedAt := t\<rparr>\<rparr>"

definition set_blockedUntil :: "int \<Rightarrow> state \<Rightarrow> state" where
  "set_blockedUntil t st = st\<lparr>cache := (cache st)\<lparr>blockedUntil := Some t\<rparr>\<rparr>"

definition set_latest :: "int \<Rightarrow> state \<Rightarrow> state" where
  "set_latest n st = st\<lparr>cache := (cache st)\<lparr>latest := n\<rparr>\<rparr>"

definition set_missing :: "int list \<Rightarrow> state \<Rightarrow> state" where
  "set_missing ms st = st\<lparr>cache := (cache st)\<lparr>missing := Some ms\<rparr>\<rparr>"

text \<open>
  The body of the \<^verbatim>\<open>inFlight\<close> promise, which a call that finds no sync in flight
  awaits. The \<^verbatim>\<open>Cache\<close> it resolves to is the global one, \<open>cache\<close> of the state returned.
\<close>

definition updateCache :: "env \<Rightarrow> state \<Rightarrow> ((error + Cache) \<times> state) option" where
  "updateCache E st =
     (case stillBlocked E st of
        (True, st1) \<Rightarrow>
          (let (t, st2) = now E st1;
               st3 = set_updatedAt t st2
           in Some (Inr (cache st3), st3))
      | (False, st1) \<Rightarrow>
          (case findLatestDraw E st1 of
             None \<Rightarrow> None
           | Some (Inl e, st2) \<Rightarrow>
               if name e = ''HtmlResponseError'' then
                 (let (t, st3) = now E st2;
                      st4 = set_blockedUntil (t + BLOCK_TTL_MS) st3;
                      (t', st5) = now E st4;
                      st6 = set_updatedAt t' st5
                  in Some (Inr (cache st6), st6))
               else Some (Inl e, st2)
           | Some (Inr latest', st2) \<Rightarrow>
               (let start = (if latest (cache st2) > 0 then latest (cache st2) + 1 else 1)
                in case (if start \<le> latest' then fetchRange E start latest' [] st2
                         else (Inr [], st2)) of
                     (Inl e, st3) \<Rightarrow> Some (Inl e, st3)
                   | (Inr missing', st3) \<Rightarrow>
                       (let st4 = set_latest latest' st3;
                            (t, st5) = now E st4;
                            st6 = set_updatedAt t st5;
                            st7 = set_missing missing' st6
                        in Some (Inr (cache st7), st7)))))"

subsection \<open>\<^verbatim>\<open>buildRanking\<close>\<close>

record RankingItem =
  num :: int
  count :: nat

text \<open>
  The element that \<^verbatim>\<open>counts[n - 1]\<close> reads: the property key \<open>n - 1\<close> names an element
  of the array when it is an integer from 0 below the length, anything else reads
  \<^verbatim>\<open>undefined\<close>.
\<close>

fun array_index :: "nat \<Rightarrow> number \<Rightarrow> nat option" where
  "array_index len (Fin r) =
     (if r - 1 = of_int \<lfloor>r - 1\<rfloor> \<and> 0 \<le> \<lfloor>r - 1\<rfloor> \<and> \<lfloor>r - 1\<rfloor> < int len
      then Some (nat \<lfloor>r - 1\<rfloor>) else None)"
| "array_index len n = None"

text \<open>\<^verbatim>\<open>counts[n - 1].count += 1\<close>, a \<^verbatim>\<open>TypeError\<close> when the element is \<^verbatim>\<open>undefined\<close>.\<close>

definition increment :: "RankingItem list \<Rightarrow> number \<Rightarrow> error + RankingItem list" where
  "increment counts n =
     (case array_index (length counts) n of
        None \<Rightarrow> Inl TypeError
      | Some i \<Rightarrow> Inr (counts[i := (counts ! i)\<lparr>count := count (counts ! i) + 1\<rparr>]))"

fun increment_all :: "RankingItem list \<Rightarrow> number list \<Rightarrow> error + RankingItem list" where
  "increment_all counts [] = Inr counts"
| "increment_all counts (n # ns) =
     (case increment counts n of
        Inl e \<Rightarrow> Inl e
      | Inr counts' \<Rightarrow> increment_all counts' ns)"

fun count_draws :: "RankingItem list \<Rightarrow> Draw list \<Rightarrow> bool \<Rightarrow> error + RankingItem list" where
  "count_draws counts [] includeBonus = Inr counts"
| "count_draws counts (draw # rest) includeBonus =
     (case increment_all counts (numbers draw) of
        Inl e \<Rightarrow> Inl e
      | Inr counts' \<Rightarrow>
          if includeBonus then
            (case increment counts' (bonus draw) of
               Inl e \<Rightarrow> Inl e
             | Inr counts'' \<Rightarrow> count_draws counts'' rest includeBonus)
          else count_draws counts' rest includeBonus)"

text \<open>The comparator given to \<^verbatim>\<open>sort\<close>.\<close>

definition compareItems :: "RankingItem \<Rightarrow> RankingItem \<Rightarrow> int" where
  "compareItems a b =
     (if count b \<noteq> count a then int (count b) - int (count a) else num a - num b)"

text \<open>\<^verbatim>\<open>Array.prototype.sort\<close> is a stable sort by the comparator; so is this insertion sort.\<close>

fun insert_by :: "('a \<Rightarrow> 'a \<Rightarrow> int) \<Rightarrow> 'a \<Rightarrow> 'a list \<Rightarrow> 'a list" where
  "insert_by cmp x [] = [x]"
| "insert_by cmp x (y # ys) = (if cmp x y \<le> 0 then x # y # ys else y # insert_by cmp x ys)"

definition sort_by :: "('a \<Rightarrow> 'a \<Rightarrow> int) \<Rightarrow> 'a list \<Rightarrow> 'a list" where
  "sort_by cmp xs = foldr (insert_by cmp) xs []"

record Ranking =
  counts :: "RankingItem list"
  ranking :: "RankingItem list"
  top6 :: "int list"
  next6 :: "int list"
  top18 :: "int list"
  hasData :: bool

definition zero_counts :: "RankingItem list" where
  "zero_counts = map (\<lambda>index. \<lparr>num = int index + 1, count = 0\<rparr>) [0..<45]"

definition buildRanking :: "Draw list \<Rightarrow> bool \<Rightarrow> error + Ranking" where
  "buildRanking draws' includeBonus =
     (case count_draws zero_counts draws' includeBonus of
        Inl e \<Rightarrow> Inl e
      | Inr counts' \<Rightarrow>
          (let ranking' = sort_by compareItems counts';
               maxCount = (case ranking' of [] \<Rightarrow> 0 | item # rest \<Rightarrow> count item)
           in Inr \<lparr>counts = counts',
                    ranking = ranking',
                    top6 = map num (take 6 ranking'),
                    next6 = map num (take 6 (drop 6 ranking')),
                    top18 = map num (take 18 ranking'),
                    hasData = (maxCount > 0)\<rparr>))"

subsection \<open>\<^verbatim>\<open>GET\<close>\<close>

text \<open>
  The JSON body of the response: the fields of \<open>Ranking\<close> and the others. \<open>updatedAtMs\<close>
  is the time stamp that the body gives as \<^verbatim>\<open>updatedAt\<close> in ISO 8601 form.
\<close>

record ResponseBody = Ranking +
  source :: string
  updatedAtMs :: int
  latestDraw :: int
  latestDate :: "string option"
  totalDraws :: nat
  includeBonus :: bool
  missingDraws :: "int list"
  apiBlockedUntil :: "int option"

text \<open>
  Lines 277 to 279 of \<^verbatim>\<open>GET\<close>: the cache as it is when fresh, the result of
  \<^verbatim>\<open>updateCache\<close> otherwise.
\<close>

definition readyCache :: "env \<Rightarrow> state \<Rightarrow> ((error + Cache) \<times> state) option" where
  "readyCache E st =
     (let cache' = getCache st;
          (t, st1) = now E st;
          isFresh = (t - updatedAt cache' < CACHE_TTL_MS)
      in if isFresh then Some (Inr (cache st1), st1) else updateCache E st1)"

text \<open>
  \<open>GET E param st\<close>: \<open>param\<close> is \<^verbatim>\<open>url.searchParams.get("includeBonus")\<close>. \<open>Inl e\<close> is
  a handler that throws, which the framework answers with an error status.
\<close>

definition GET :: "env \<Rightarrow> string option \<Rightarrow> state \<Rightarrow> ((error + ResponseBody) \<times> state) option" where
  "GET E param st =
     (let includeBonus' = (param = Some ''1'')
      in case readyCache E st of
           None \<Rightarrow> None
         | Some (Inl e, st2) \<Rightarrow> Some (Inl e, st2)
         | Some (Inr ready, st2) \<Rightarrow>
             (let missing' = (case missing ready of None \<Rightarrow> [] | Some ms \<Rightarrow> ms)
              in case buildRanking (map snd (draws ready)) includeBonus' of
                   Inl e \<Rightarrow> Some (Inl e, st2)
                 | Inr r \<Rightarrow>
                     (let latestDraw' = map_of (draws ready) (latest ready)
                      in Some (Inr \<lparr>counts = counts r,
                                     ranking = ranking r,
                                     top6 = top6 r,
                                     next6 = next6 r,
                                     top18 = top18 r,
                                     hasData = hasData r,
                                     source = ''dhlottery'',
                                     updatedAtMs = updatedAt ready,
                                     latestDraw = latest ready,
                                     latestDate = (case latestDraw' of
                                                     None \<Rightarrow> None
                                                   | Some d \<Rightarrow> Some (drwNoDate d)),
                                     totalDraws = length (draws ready),
                                     includeBonus = includeBonus',
                                     missingDraws = missing',
                                     apiBlockedUntil = blockedUntil ready\<rparr>, st2))))"

section \<open>Notions used to state the properties\<close>

subsection \<open>Retries\<close>

text \<open>
  A result of \<open>fetchDrawOnce\<close> that \<open>fetchDraw\<close> retries: an exception other than
  \<open>HtmlResponseError\<close>.
\<close>

definition transient :: "error + Draw option \<Rightarrow> bool" where
  "transient r = (case r of Inl e \<Rightarrow> e \<noteq> HtmlResponseError | Inr d \<Rightarrow> False)"

text \<open>
  \<open>attempt E no st i\<close>: what the request for draw \<open>no\<close> that follows \<open>i\<close> further requests
  for it gives, counted from the state \<open>st\<close>.
\<close>

definition attempt :: "env \<Rightarrow> int \<Rightarrow> state \<Rightarrow> nat \<Rightarrow> error + Draw option" where
  "attempt E no st i = fst (fetchDrawOnce E no (st\<lparr>sent := replicate i no @ sent st\<rparr>))"

text \<open>
  \<open>fetched E no st i\<close>: what \<open>fetchJson\<close> returns for that request, the payload when it
  returns one.
\<close>

definition fetched :: "env \<Rightarrow> int \<Rightarrow> state \<Rightarrow> nat \<Rightarrow> error + jsval" where
  "fetched E no st i = fst (fetchJson E no (st\<lparr>sent := replicate i no @ sent st\<rparr>))"

text \<open>The state after \<open>k\<close> requests for draw \<open>no\<close> and the given delays, the last first.\<close>

definition after_attempts :: "int \<Rightarrow> nat \<Rightarrow> nat list \<Rightarrow> state \<Rightarrow> state" where
  "after_attempts no k delays st =
     st\<lparr>sent := replicate k no @ sent st, slept := delays @ slept st\<rparr>"

subsection \<open>An upstream that holds the draws 1 to \<open>N\<close>\<close>

text \<open>
  \<open>fetchDraw\<close> answers as the predicate \<open>exists(n) = (n \<le> N)\<close> does: in every state it
  finds a draw with a number up to \<open>N\<close> and no draw above \<open>N\<close>, and never throws.
\<close>

definition exists_upto :: "env \<Rightarrow> int \<Rightarrow> bool" where
  "exists_upto E N \<longleftrightarrow>
     (\<forall>no st. if no \<le> N then (\<exists>d. fst (fetchDraw E no st) = Inr (Some d))
              else fst (fetchDraw E no st) = Inr None)"

subsection \<open>Payloads\<close>


subsection \<open>Cache contents\<close>

definition keys :: "Cache \<Rightarrow> int set" where
  "keys c = fst ` set (draws c)"

definition missing_list :: "Cache \<Rightarrow> int list" where
  "missing_list c = (case missing c of None \<Rightarrow> [] | Some ms \<Rightarrow> ms)"

text \<open>The first draw number that a sync fetches: \<^verbatim>\<open>cache.latest > 0 ? cache.latest + 1 : 1\<close>.\<close>

definition range_start :: "Cache \<Rightarrow> int" where
  "range_start c = (if latest c > 0 then latest c + 1 else 1)"

subsection \<open>The pool of workers\<close>

text \<open>The draws that the workers of a pool are fetching, in worker order.\<close>

definition in_flight :: "Pool \<Rightarrow> int list" where
  "in_flight p = map draw_no (workers p)"

text \<open>
  A pool for the range \<open>[start, end]\<close>, started on the cache \<open>c\<close>: what is in flight or
  missing is a number of the range below \<open>current\<close>, and so is every key that \<open>c\<close> did
  not have.
\<close>

definition bounded :: "int \<Rightarrow> int \<Rightarrow> Cache \<Rightarrow> Pool \<Rightarrow> bool" where
  "bounded start end' c p \<longleftrightarrow>
     start \<le> current p \<and>
     set (in_flight p) \<union> set (missed p) \<subseteq> {start..end'} \<inter> {..<current p} \<and>
     keys c \<subseteq> keys (cache (world p)) \<and>
     keys (cache (world p)) \<subseteq> keys c \<union> ({start..end'} \<inter> {..<current p})"

text \<open>
  While no worker has thrown, every number of the range below \<open>current\<close> is recorded or
  in flight, and a worker is left as long as numbers are.
\<close>

definition covered :: "int \<Rightarrow> int \<Rightarrow> Pool \<Rightarrow> bool" where
  "covered start end' p \<longleftrightarrow>
     (rejection p = None \<longrightarrow>
        {start..end'} \<inter> {..<current p}
          \<subseteq> keys (cache (world p)) \<union> set (missed p) \<union> set (in_flight p))"

definition busy :: "int \<Rightarrow> Pool \<Rightarrow> bool" where
  "busy end' p \<longleftrightarrow> (rejection p = None \<and> current p \<le> end' \<longrightarrow> in_flight p \<noteq> [])"

text \<open>The pool has recorded none of the draws in flight, and nothing twice.\<close>

definition pool_fresh :: "Pool \<Rightarrow> bool" where
  "pool_fresh p \<longleftrightarrow>
     distinct (in_flight p) \<and> distinct (missed p) \<and>
     set (in_flight p) \<inter> (set (missed p) \<union> keys (cache (world p))) = {} \<and>
     set (missed p) \<inter> keys (cache (world p)) = {}"

text \<open>
  The invariant of the pool: the above, and of the cache only \<open>draws\<close> differs from \<open>c\<close>.
\<close>

definition pool_ok :: "int \<Rightarrow> int \<Rightarrow> Cache \<Rightarrow> Pool \<Rightarrow> bool" where
  "pool_ok start end' c p \<longleftrightarrow>
     bounded start end' c p \<and> covered start end' p \<and>
     cache (world p) = c\<lparr>draws := draws (cache (world p))\<rparr> \<and>
     (keys c \<inter> {start..end'} = {} \<longrightarrow> pool_fresh p)"

subsection \<open>Served responses\<close>



section \<open>Concrete upstreams\<close>

fun decimal :: "nat \<Rightarrow> string" where
  "decimal n =
     (if n < 10 then [char_of (48 + n)] else decimal (n div 10) @ [char_of (48 + n mod 10)])"

declare decimal.simps [simp del]

text \<open>The reply for a draw that exists, in the shape the upstream gives it.\<close>

definition draw_reply :: "int \<Rightarrow> reply" where
  \<open>draw_reply no =
     HttpResponse True 200 (Some ''application/json'')
       (Inr (units (''{"returnValue":"success","drwNo":'' @ decimal (nat no) @
             '',"drwNoDate":"2002-12-07","drwtNo1":10,"drwtNo2":23,"drwtNo3":29,'' @
             ''"drwtNo4":33,"drwtNo5":37,"drwtNo6":40,"bnusNo":16}'')))
       (Some (JObj [(''returnValue'', JStr ''success''),
                    (''drwNo'', JNum (Fin (of_int no))),
                    (''drwNoDate'', JStr ''2002-12-07''),
                    (''drwtNo1'', JNum (Fin 10)), (''drwtNo2'', JNum (Fin 23)),
                    (''drwtNo3'', JNum (Fin 29)), (''drwtNo4'', JNum (Fin 33)),
                    (''drwtNo5'', JNum (Fin 37)), (''drwtNo6'', JNum (Fin 40)),
                    (''bnusNo'', JNum (Fin 16))]))\<close>

definition the_draw :: "int \<Rightarrow> Draw" where
  "the_draw no = \<lparr>drwNo = Fin (of_int no), drwNoDate = ''2002-12-07'',
                   numbers = [Fin 10, Fin 23, Fin 29, Fin 33, Fin 37, Fin 40],
                   bonus = Fin 16\<rparr>"

text \<open>The reply for a draw that does not exist.\<close>

definition no_draw_reply :: reply where
  \<open>no_draw_reply =
     HttpResponse True 200 (Some ''application/json'')
       (Inr (units ''{"returnValue":"fail"}''))
       (Some (JObj [(''returnValue'', JStr ''fail'')]))\<close>

text \<open>An HTML page in place of the data.\<close>

definition html_reply :: reply where
  \<open>html_reply =
     HttpResponse True 200 (Some ''text/html'')
       (Inr (units ''<!DOCTYPE html><html><body>blocked</body></html>'')) None\<close>


text \<open>
  An environment from an upstream and a clock. The payloads of the runs below give their
  numbers as JSON numbers and their dates as strings, so that no run converts a string to
  a number or a number to a string: the two conversions are never applied and are set to
  constant functions. Of the workers of a pool the first always goes on first.
\<close>

definition server :: "(int \<Rightarrow> nat \<Rightarrow> reply) \<Rightarrow> (nat \<Rightarrow> nat) \<Rightarrow> env" where
  "server up clk =
     \<lparr>StringToNumber = (\<lambda>s. NaN), NumberToString = (\<lambda>n. ''NaN''),
      upstream = up, clock = clk, sched = (\<lambda>log waiting. 0)\<rparr>"

text \<open>The draws 1 to \<open>N\<close> exist.\<close>

definition upstream_upto :: "int \<Rightarrow> int \<Rightarrow> nat \<Rightarrow> reply" where
  "upstream_upto N no k = (if no \<le> N then draw_reply no else no_draw_reply)"

text \<open>Draw 7 exists; the first two requests for it time out.\<close>

definition flaky7 :: "int \<Rightarrow> nat \<Rightarrow> reply" where
  "flaky7 no k = (if no = 7 \<and> k < 2 then FetchFailed TimedOut else upstream_upto 7 no k)"

text \<open>The draws 1 to 3 exist; every request for draw 1 gets an HTML page.\<close>

definition html_at_1 :: "int \<Rightarrow> nat \<Rightarrow> reply" where
  "html_at_1 no k = (if no = 1 then html_reply else upstream_upto 3 no k)"

text \<open>The draws 1 to 3 exist; every request for draw 1 times out.\<close>

definition timeout_at_1 :: "int \<Rightarrow> nat \<Rightarrow> reply" where
  "timeout_at_1 no k = (if no = 1 then FetchFailed TimedOut else upstream_upto 3 no k)"

text \<open>Every request gets an HTML page.\<close>

definition all_html :: "int \<Rightarrow> nat \<Rightarrow> reply" where
  "all_html no k = html_reply"


text \<open>A clock at 50 000 000 ms for its first three reads and at 60 000 000 ms after.\<close>

definition two_visits :: "nat \<Rightarrow> nat" where
  "two_visits k = (if k < 3 then 50000000 else 60000000)"

text \<open>A clock that advances by 50 000 000 ms at every read.\<close>

definition slow_clock :: "nat \<Rightarrow> nat" where
  "slow_clock k = 50000000 * (k + 1)"

text \<open>
  The state after a first sync against \<open>timeout_at_1\<close> that starts from \<open>new_state\<close> with
  the clock at \<open>slow_clock\<close>, and the state after a second sync that follows it.
\<close>

definition after_first_sync :: state where
  "after_first_sync =
     \<lparr>cache = \<lparr>updatedAt = 50000000, latest = 3,
                 draws = [(2, the_draw 2), (3, the_draw 3)],
                 blockedUntil = None, missing = Some [1]\<rparr>,
      sent = [1, 1, 3, 2, 1, 3, 2, 4, 8, 17, 34, 68, 137, 275, 550, 1100],
      slept = [750, 500, 250], ticks = 1\<rparr>"

definition after_second_sync :: state where
  "after_second_sync =
     \<lparr>cache = \<lparr>updatedAt = 100000000, latest = 3,
                 draws = [(2, the_draw 2), (3, the_draw 3)],
                 blockedUntil = None, missing = Some []\<rparr>,
      sent = [4, 6, 3, 1, 1, 3, 2, 1, 3, 2, 4, 8, 17, 34, 68, 137, 275, 550, 1100],
      slept = [750, 500, 250], ticks = 2\<rparr>"


text \<open>
  The state after a first \<open>GET\<close> against \<open>all_html\<close> that starts from \<open>new_state\<close> with
  the clock at \<open>two_visits\<close>.
\<close>

definition after_block :: state where
  "after_block =
     \<lparr>cache = \<lparr>updatedAt = 50000000, latest = 0, draws = [],
                 blockedUntil = Some 50900000, missing = None\<rparr>,
      sent = [1100], slept = [], ticks = 3\<rparr>"

section \<open>The fetcher\<close>

lemma name_Html: "name e = ''HtmlResponseError'' \<longleftrightarrow> e = HtmlResponseError"
  by (cases e) simp_all

lemma transient_Inr: "\<not> transient (Inr d)"
  by (simp add: transient_def)

text \<open>
  Leading white space is trimmed before the test for \<^verbatim>\<open><\<close>, a no-break space as well as
  a line feed or a byte order mark.
\<close>

lemma trimmed_html:
  "readJson (HttpResponse True 200 None (Inr ([0xFEFF, 0x0A, 0xA0] @ units ''<html>'')) None)
     = Inl HtmlResponseError"
  by (simp add: readJson_def trim_def is_space_def units_def)

lemma fetchJson_state: "snd (fetchJson E no st) = st\<lparr>sent := no # sent st\<rparr>"
  by (simp add: fetchJson_def request_def)

lemma fetchDrawOnce_state: "snd (fetchDrawOnce E no st) = st\<lparr>sent := no # sent st\<rparr>"
  using fetchJson_state [of E no st]
  by (cases "fetchJson E no st") (simp add: fetchDrawOnce_def split: sum.split)

lemma fetchJson_slept: "fst (fetchJson E no (st\<lparr>slept := ds\<rparr>)) = fst (fetchJson E no st)"
  by (simp add: fetchJson_def request_def)

lemma fetchDrawOnce_slept:
  "fst (fetchDrawOnce E no (st\<lparr>slept := ds\<rparr>)) = fst (fetchDrawOnce E no st)"
  using fetchJson_slept [of E no ds st]
  by (cases "fetchJson E no st"; cases "fetchJson E no (st\<lparr>slept := ds\<rparr>)")
     (simp add: fetchDrawOnce_def split: sum.split)

lemma fetchDraw_from_step:
  "fetchDraw_from E no k st =
     (if k \<le> 2 then
        (if transient (fst (fetchDrawOnce E no st))
         then fetchDraw_from E no (k + 1) (sleep (250 * (k + 1)) (st\<lparr>sent := no # sent st\<rparr>))
         else (fst (fetchDrawOnce E no st), st\<lparr>sent := no # sent st\<rparr>))
      else (Inr None, st))"
proof -
  obtain r st' where r: "fetchDrawOnce E no st = (r, st')"
    by (cases "fetchDrawOnce E no st")
  with fetchDrawOnce_state [of E no st] have st': "st' = st\<lparr>sent := no # sent st\<rparr>"
    by simp
  show ?thesis
    by (subst fetchDraw_from.simps)
       (simp add: r st' RETRIES_def transient_def name_Html split: sum.split)
qed

lemma fetchDraw_from_0:
  "fetchDraw E no st =
     (if transient (fst (fetchDrawOnce E no st))
      then fetchDraw_from E no 1 (sleep 250 (st\<lparr>sent := no # sent st\<rparr>))
      else (fst (fetchDrawOnce E no st), st\<lparr>sent := no # sent st\<rparr>))"
  unfolding fetchDraw_def by (subst fetchDraw_from_step) simp

lemma retry_first_attempt:
  "\<not> transient (attempt E no st 0) \<Longrightarrow>
     fetchDraw E no st = (attempt E no st 0, st\<lparr>sent := no # sent st\<rparr>)"
  by (simp add: fetchDraw_from_0 attempt_def)

lemma fetchDraw_unrolled:
  "fetchDraw E no st =
     (if \<not> transient (attempt E no st 0) then (attempt E no st 0, after_attempts no 1 [] st)
      else if \<not> transient (attempt E no st 1)
        then (attempt E no st 1, after_attempts no 2 [250] st)
      else if \<not> transient (attempt E no st 2)
        then (attempt E no st 2, after_attempts no 3 [500, 250] st)
      else (Inr None, after_attempts no 3 [750, 500, 250] st))"
proof -
  let ?s1 = "sleep 250 (st\<lparr>sent := no # sent st\<rparr>)"
  let ?s2 = "sleep 500 (?s1\<lparr>sent := no # sent ?s1\<rparr>)"
  let ?s3 = "sleep 750 (?s2\<lparr>sent := no # sent ?s2\<rparr>)"
  have a0: "fst (fetchDrawOnce E no st) = attempt E no st 0"
    by (simp add: attempt_def)
  have a1: "fst (fetchDrawOnce E no ?s1) = attempt E no st 1"
    using fetchDrawOnce_slept [of E no "250 # slept st" "st\<lparr>sent := no # sent st\<rparr>"]
    by (simp add: attempt_def sleep_def)
  have a2: "fst (fetchDrawOnce E no ?s2) = attempt E no st 2"
    using fetchDrawOnce_slept [of E no "500 # 250 # slept st" "st\<lparr>sent := no # no # sent st\<rparr>"]
    by (simp add: attempt_def sleep_def numeral_2_eq_2)
  have f3: "fetchDraw_from E no 3 s = (Inr None, s)" for s
    by (subst fetchDraw_from_step) simp
  have f2: "fetchDraw_from E no 2 ?s2 =
      (if transient (attempt E no st 2) then (Inr None, ?s3)
       else (attempt E no st 2, ?s2\<lparr>sent := no # sent ?s2\<rparr>))"
    by (subst fetchDraw_from_step) (simp add: a2 f3)
  have f1: "fetchDraw_from E no 1 ?s1 =
      (if transient (attempt E no st 1) then fetchDraw_from E no 2 ?s2
       else (attempt E no st 1, ?s1\<lparr>sent := no # sent ?s1\<rparr>))"
    by (subst fetchDraw_from_step) (simp add: a1 numeral_2_eq_2)
  have f0: "fetchDraw_from E no 0 st =
      (if transient (attempt E no st 0) then fetchDraw_from E no 1 ?s1
       else (attempt E no st 0, st\<lparr>sent := no # sent st\<rparr>))"
    by (subst fetchDraw_from_step) (simp add: a0)
  show ?thesis
    unfolding fetchDraw_def f0 f1 f2
    by (simp add: after_attempts_def sleep_def numeral_2_eq_2 numeral_3_eq_3)
qed

lemma fetchDraw_cache: "cache (snd (fetchDraw E no st)) = cache st"
  by (simp add: fetchDraw_unrolled after_attempts_def)

lemma fetchDraw_ticks: "ticks (snd (fetchDraw E no st)) = ticks st"
  by (simp add: fetchDraw_unrolled after_attempts_def)

text \<open>
  Claim C7. A call of \<open>fetchDraw\<close> makes at most three requests. It stops at the first
  attempt that is not a transient failure and ends as that attempt did: with a draw, with
  no draw, or by throwing \<open>HtmlResponseError\<close> again, with no further request. It waits 250 ms
  after the first transient failure, 500 ms after the second and 750 ms after the third,
  and after the third it resolves to no draw. So it returns a draw, resolves to no draw,
  or throws \<open>HtmlResponseError\<close>, and nothing else.
\<close>

theorem fetchDraw_retry_policy:
  "fetchDraw E no st =
     (if \<not> transient (attempt E no st 0) then (attempt E no st 0, after_attempts no 1 [] st)
      else if \<not> transient (attempt E no st 1)
        then (attempt E no st 1, after_attempts no 2 [250] st)
      else if \<not> transient (attempt E no st 2)
        then (attempt E no st 2, after_attempts no 3 [500, 250] st)
      else (Inr None, after_attempts no 3 [750, 500, 250] st))
   \<and> (fst (fetchDraw E no st) = Inl HtmlResponseError
       \<or> fst (fetchDraw E no st) = Inr None
       \<or> (\<exists>d. fst (fetchDraw E no st) = Inr (Some d)))"
proof -
  have tri: "\<not> transient r \<Longrightarrow> r = Inl HtmlResponseError \<or> r = Inr None \<or> (\<exists>d. r = Inr (Some d))"
    for r
    by (cases r) (auto simp: transient_def)
  show ?thesis
    using tri [of "attempt E no st 0"] tri [of "attempt E no st 1"] tri [of "attempt E no st 2"]
    by (simp add: fetchDraw_unrolled)
qed

theorem fetchDraw_retry_policy_witness:
  "fetchDraw (server flaky7 slow_clock) 7 new_state =
     (Inr (Some (the_draw 7)), after_attempts 7 3 [500, 250] new_state)"
proof -
  have a0: "transient (attempt (server flaky7 slow_clock) 7 new_state 0)"
    by code_simp
  have a1: "transient (attempt (server flaky7 slow_clock) 7 new_state (Suc 0))"
    by code_simp
  have a2: "attempt (server flaky7 slow_clock) 7 new_state 2 = Inr (Some (the_draw 7))"
    by code_simp
  show ?thesis
    using fetchDraw_retry_policy [of "server flaky7 slow_clock" 7 new_state]
    by (simp add: a0 a1 a2 transient_Inr)
qed

section \<open>The locator\<close>

subsection \<open>It returns, and leaves the cache and the clock alone\<close>

lemma fetchDraw_frame:
  "fetchDraw E no st = (r, st') \<Longrightarrow> cache st' = cache st \<and> ticks st' = ticks st"
  using fetchDraw_cache [of E no st] fetchDraw_ticks [of E no st] by simp

lemma search_down_frame:
  "search_down E low high st = (r, st') \<Longrightarrow> cache st' = cache st \<and> ticks st' = ticks st"
proof (induction E low high st arbitrary: r st' rule: search_down.induct)
  case (1 E low high st)
  show ?case
  proof (cases "low \<le> high")
    case False
    with "1.prems" show ?thesis
      by (subst (asm) search_down.simps) simp
  next
    case True
    obtain x st1 where f: "fetchDraw E ((low + high) div 2) st = (x, st1)"
      by (cases "fetchDraw E ((low + high) div 2) st")
    note fr = fetchDraw_frame [OF f]
    show ?thesis
    proof (cases x)
      case (Inl e)
      with "1.prems" True f fr show ?thesis
        by (subst (asm) search_down.simps) (simp add: Let_def)
    next
      case (Inr d)
      show ?thesis
      proof (cases d)
        case None
        with "1.prems" True f Inr
        have "search_down E low ((low + high) div 2 - 1) st1 = (r, st')"
          by (subst (asm) search_down.simps) (simp add: Let_def)
        from "1.IH"(1) [OF True refl f [symmetric] Inr None this] fr show ?thesis
          by simp
      next
        case (Some a)
        with "1.prems" True f Inr
        have "search_down E ((low + high) div 2 + 1) high st1 = (r, st')"
          by (subst (asm) search_down.simps) (simp add: Let_def)
        from "1.IH"(2) [OF True refl f [symmetric] Inr Some this] fr show ?thesis
          by simp
      qed
    qed
  qed
qed

lemma bisect_frame:
  "bisect E low high st = (r, st') \<Longrightarrow> cache st' = cache st \<and> ticks st' = ticks st"
proof (induction E low high st arbitrary: r st' rule: bisect.induct)
  case (1 E low high st)
  show ?case
  proof (cases "low + 1 < high")
    case False
    with "1.prems" show ?thesis
      by (subst (asm) bisect.simps) simp
  next
    case True
    obtain x st1 where f: "fetchDraw E ((low + high) div 2) st = (x, st1)"
      by (cases "fetchDraw E ((low + high) div 2) st")
    note fr = fetchDraw_frame [OF f]
    show ?thesis
    proof (cases x)
      case (Inl e)
      with "1.prems" True f fr show ?thesis
        by (subst (asm) bisect.simps) (simp add: Let_def)
    next
      case (Inr d)
      show ?thesis
      proof (cases d)
        case None
        with "1.prems" True f Inr
        have "bisect E low ((low + high) div 2) st1 = (r, st')"
          by (subst (asm) bisect.simps) (simp add: Let_def)
        from "1.IH"(1) [OF True refl f [symmetric] Inr None this] fr show ?thesis
          by simp
      next
        case (Some a)
        with "1.prems" True f Inr
        have "bisect E ((low + high) div 2) high st1 = (r, st')"
          by (subst (asm) bisect.simps) (simp add: Let_def)
        from "1.IH"(2) [OF True refl f [symmetric] Inr Some this] fr show ?thesis
          by simp
      qed
    qed
  qed
qed

lemma grow_high_total:
  "1 \<le> high \<Longrightarrow>
     \<exists>r st'. grow_high E low high st = Some (r, st') \<and> cache st' = cache st \<and> ticks st' = ticks st"
proof (induction "nat (MAX_DRAW_GUESS - high)" arbitrary: low high st rule: less_induct)
  case less
  obtain x st1 where f: "fetchDraw E high st = (x, st1)"
    by (cases "fetchDraw E high st")
  note fr = fetchDraw_frame [OF f]
  show ?case
  proof (cases "high \<le> MAX_DRAW_GUESS")
    case False
    then show ?thesis
      by (subst grow_high.simps) simp
  next
    case True
    show ?thesis
    proof (cases x)
      case (Inl e)
      with True f fr show ?thesis
        by (subst grow_high.simps) simp
    next
      case (Inr d)
      show ?thesis
      proof (cases d)
        case None
        with True f fr Inr show ?thesis
          by (subst grow_high.simps) simp
      next
        case (Some a)
        show ?thesis
        proof (cases "high = MAX_DRAW_GUESS")
          case max: True
          with f fr Inr Some show ?thesis
            by (subst grow_high.simps) (simp add: Let_def)
        next
          case False
          let ?high' = "min (high * 2) MAX_DRAW_GUESS"
          have step: "grow_high E low high st = grow_high E high ?high' st1"
            using True f Inr Some False by (subst grow_high.simps) (simp add: Let_def)
          have "nat (MAX_DRAW_GUESS - ?high') < nat (MAX_DRAW_GUESS - high)" "1 \<le> ?high'"
            using less.prems True False by (simp_all add: min_def)
          from less.hyps [OF this, of high st1] fr show ?thesis
            unfolding step by simp
        qed
      qed
    qed
  qed
qed

lemma findLatestDraw_total:
  "\<exists>r st'. findLatestDraw E st = Some (r, st') \<and> cache st' = cache st \<and> ticks st' = ticks st"
proof -
  define probe where "probe = (if latest (cache st) > 0 then latest (cache st) else 1100)"
  have probe: "1 \<le> probe"
    by (simp add: probe_def)
  obtain x st1 where f: "fetchDraw E probe st = (x, st1)"
    by (cases "fetchDraw E probe st")
  note fr = fetchDraw_frame [OF f]
  have unf: "findLatestDraw E st =
      (case fetchDraw E probe st of
         (Inl e, st') \<Rightarrow> Some (Inl e, st')
       | (Inr None, st') \<Rightarrow> Some (search_down E 1 probe st')
       | (Inr (Some draw), st') \<Rightarrow>
           (case grow_high E probe (min (probe * 2) MAX_DRAW_GUESS) st' of
              None \<Rightarrow> None
            | Some (Inl e, st'') \<Rightarrow> Some (Inl e, st'')
            | Some (Inr (Returned low), st'') \<Rightarrow> Some (Inr low, st'')
            | Some (Inr (Bracket low high), st'') \<Rightarrow> Some (bisect E low high st'')))"
    unfolding findLatestDraw_def getCache_def Let_def probe_def ..
  show ?thesis
  proof (cases x)
    case (Inl e)
    with f fr show ?thesis by (simp add: unf)
  next
    case (Inr d)
    show ?thesis
    proof (cases d)
      case None
      obtain r st' where s: "search_down E 1 probe st1 = (r, st')"
        by (cases "search_down E 1 probe st1")
      from search_down_frame [OF s] fr None Inr f s show ?thesis
        by (simp add: unf)
    next
      case (Some a)
      have "1 \<le> min (probe * 2) MAX_DRAW_GUESS"
        using probe by (simp add: min_def MAX_DRAW_GUESS_def)
      from grow_high_total [OF this, of E probe st1] obtain z st2
        where g: "grow_high E probe (min (probe * 2) MAX_DRAW_GUESS) st1 = Some (z, st2)"
          and gf: "cache st2 = cache st1" "ticks st2 = ticks st1"
        by blast
      show ?thesis
      proof (cases z)
        case (Inl e)
        with f Inr Some g gf fr show ?thesis by (simp add: unf)
      next
        case z: (Inr w)
        show ?thesis
        proof (cases w)
          case (Returned n)
          with f Inr Some g gf fr z show ?thesis by (simp add: unf)
        next
          case (Bracket l h)
          obtain r st' where b: "bisect E l h st2 = (r, st')"
            by (cases "bisect E l h st2")
          from bisect_frame [OF b] f Inr Some g gf fr z Bracket b show ?thesis
            by (simp add: unf)
        qed
      qed
    qed
  qed
qed

subsection \<open>It finds the last draw\<close>

lemma fetchDraw_found:
  assumes "exists_upto E N" "no \<le> N"
  shows "\<exists>d st'. fetchDraw E no st = (Inr (Some d), st')"
proof -
  from assms obtain d where "fst (fetchDraw E no st) = Inr (Some d)"
    unfolding exists_upto_def by meson
  then show ?thesis
    by (cases "fetchDraw E no st") auto
qed

lemma fetchDraw_absent:
  assumes "exists_upto E N" "N < no"
  shows "\<exists>st'. fetchDraw E no st = (Inr None, st')"
proof -
  from assms have "fst (fetchDraw E no st) = Inr None"
    unfolding exists_upto_def by (metis not_less)
  then show ?thesis
    by (cases "fetchDraw E no st") auto
qed

lemma search_down_exact:
  "exists_upto E N \<Longrightarrow> 1 \<le> N \<Longrightarrow> low - 1 \<le> N \<Longrightarrow> N \<le> high \<Longrightarrow> low \<le> high + 1
     \<Longrightarrow> fst (search_down E low high st) = Inr N"
proof (induction E low high st rule: search_down.induct)
  case (1 E low high st)
  let ?mid = "(low + high) div 2"
  show ?case
  proof (cases "low \<le> high")
    case False
    with "1.prems" have "high = N" by linarith
    with False "1.prems" show ?thesis
      by (subst search_down.simps) simp
  next
    case True
    then have mid: "low \<le> ?mid" "?mid \<le> high" by linarith+
    show ?thesis
    proof (cases "?mid \<le> N")
      case le: True
      from fetchDraw_found [OF "1.prems"(1) le] obtain d st'
        where f: "fetchDraw E ?mid st = (Inr (Some d), st')" by blast
      have "fst (search_down E (?mid + 1) high st') = Inr N"
        using "1.IH"(2) [OF True refl f [symmetric] refl refl] "1.prems" le mid by simp
      then show ?thesis
        using True f by (subst search_down.simps) (simp add: Let_def)
    next
      case gt: False
      then have "N < ?mid" by simp
      from fetchDraw_absent [OF "1.prems"(1) this] obtain st'
        where f: "fetchDraw E ?mid st = (Inr None, st')" by blast
      have "fst (search_down E low (?mid - 1) st') = Inr N"
        using "1.IH"(1) [OF True refl f [symmetric] refl refl] "1.prems" gt mid by simp
      then show ?thesis
        using True f by (subst search_down.simps) (simp add: Let_def)
    qed
  qed
qed

lemma bisect_exact:
  "exists_upto E N \<Longrightarrow> low \<le> N \<Longrightarrow> N < high \<Longrightarrow> fst (bisect E low high st) = Inr N"
proof (induction E low high st rule: bisect.induct)
  case (1 E low high st)
  let ?mid = "(low + high) div 2"
  show ?case
  proof (cases "low + 1 < high")
    case False
    with "1.prems" have "low = N" by linarith
    with False show ?thesis
      by (subst bisect.simps) simp
  next
    case True
    then have mid: "low < ?mid" "?mid < high" by linarith+
    show ?thesis
    proof (cases "?mid \<le> N")
      case le: True
      from fetchDraw_found [OF "1.prems"(1) le] obtain d st'
        where f: "fetchDraw E ?mid st = (Inr (Some d), st')" by blast
      have "fst (bisect E ?mid high st') = Inr N"
        using "1.IH"(2) [OF True refl f [symmetric] refl refl] "1.prems" le by simp
      then show ?thesis
        using True f by (subst bisect.simps) (simp add: Let_def)
    next
      case gt: False
      then have "N < ?mid" by simp
      from fetchDraw_absent [OF "1.prems"(1) this] obtain st'
        where f: "fetchDraw E ?mid st = (Inr None, st')" by blast
      have "fst (bisect E low ?mid st') = Inr N"
        using "1.IH"(1) [OF True refl f [symmetric] refl refl] "1.prems" gt by simp
      then show ?thesis
        using True f by (subst bisect.simps) (simp add: Let_def)
    qed
  qed
qed

lemma grow_high_bracket:
  assumes E: "exists_upto E N" and N: "N \<le> MAX_DRAW_GUESS"
  shows "1 \<le> high \<Longrightarrow> high \<le> MAX_DRAW_GUESS \<Longrightarrow> low \<le> N \<Longrightarrow>
         (\<exists>st'. grow_high E low high st = Some (Inr (Returned N), st')) \<or>
         (\<exists>l h st'. grow_high E low high st = Some (Inr (Bracket l h), st') \<and> l \<le> N \<and> N < h)"
proof (induction "nat (MAX_DRAW_GUESS - high)" arbitrary: low high st rule: less_induct)
  case less
  show ?case
  proof (cases "high \<le> N")
    case False
    then have "N < high" by simp
    from fetchDraw_absent [OF E this] obtain st'
      where f: "fetchDraw E high st = (Inr None, st')" by blast
    have "grow_high E low high st = Some (Inr (Bracket low high), st')"
      using less.prems f by (subst grow_high.simps) simp
    with less.prems \<open>N < high\<close> show ?thesis by blast
  next
    case True
    from fetchDraw_found [OF E True] obtain d st'
      where f: "fetchDraw E high st = (Inr (Some d), st')" by blast
    show ?thesis
    proof (cases "high = MAX_DRAW_GUESS")
      case max: True
      with True N have "high = N" by simp
      have "grow_high E low high st = Some (Inr (Returned high), st')"
        using less.prems f max by (subst grow_high.simps) (simp add: Let_def)
      with \<open>high = N\<close> show ?thesis by blast
    next
      case False
      let ?high' = "min (high * 2) MAX_DRAW_GUESS"
      have step: "grow_high E low high st = grow_high E high ?high' st'"
        using less.prems f False by (subst grow_high.simps) (simp add: Let_def)
      have "nat (MAX_DRAW_GUESS - ?high') < nat (MAX_DRAW_GUESS - high)"
        using less.prems False by (simp add: min_def)
      moreover have "1 \<le> ?high'" "?high' \<le> MAX_DRAW_GUESS"
        using less.prems by (simp_all add: min_def)
      ultimately show ?thesis
        using less.hyps [of ?high' high st'] True unfolding step by blast
    qed
  qed
qed

text \<open>
  Claim C2. Let the upstream hold exactly the draws 1 to \<open>N\<close>, with \<open>1 \<le> N \<le> MAX_DRAW_GUESS\<close>,
  so that \<open>fetchDraw\<close> answers as the predicate \<open>exists(n) = (n \<le> N)\<close>. Then
  \<open>findLatestDraw\<close> returns, and returns exactly \<open>N\<close>, from every cache: the seed of the
  search is the cache's \<open>latest\<close> if positive and 1100 otherwise, and no bound on it is
  needed. (A seed above \<open>N\<close> goes through \<open>search_down\<close>, a seed up to \<open>N\<close> through
  \<open>grow_high\<close> and \<open>bisect\<close>.)
\<close>

theorem findLatestDraw_exact:
  assumes "exists_upto E N" and "1 \<le> N" and "N \<le> MAX_DRAW_GUESS"
  shows "\<exists>st'. findLatestDraw E st = Some (Inr N, st')"
proof -
  define probe where "probe = (if latest (cache st) > 0 then latest (cache st) else 1100)"
  have probe: "1 \<le> probe"
    by (simp add: probe_def)
  show ?thesis
  proof (cases "probe \<le> N")
    case False
    then have "N < probe" by simp
    from fetchDraw_absent [OF assms(1) this] obtain st1
      where f: "fetchDraw E probe st = (Inr None, st1)" by blast
    have "fst (search_down E 1 probe st1) = Inr N"
      using search_down_exact [OF assms(1,2), of 1 probe st1] \<open>N < probe\<close> assms(2) by simp
    then obtain st2 where "search_down E 1 probe st1 = (Inr N, st2)"
      by (cases "search_down E 1 probe st1") auto
    with f show ?thesis
      by (simp add: findLatestDraw_def getCache_def Let_def probe_def [symmetric])
  next
    case True
    from fetchDraw_found [OF assms(1) True] obtain d st1
      where f: "fetchDraw E probe st = (Inr (Some d), st1)" by blast
    let ?high = "min (probe * 2) MAX_DRAW_GUESS"
    have "1 \<le> ?high" "?high \<le> MAX_DRAW_GUESS"
      using probe by (simp_all add: min_def MAX_DRAW_GUESS_def)
    from grow_high_bracket [OF assms(1,3) this True, of st1]
    consider st2 where "grow_high E probe ?high st1 = Some (Inr (Returned N), st2)"
      | l h st2 where "grow_high E probe ?high st1 = Some (Inr (Bracket l h), st2)"
          "l \<le> N" "N < h"
      by blast
    then show ?thesis
    proof cases
      case 1
      with f show ?thesis
        by (simp add: findLatestDraw_def getCache_def Let_def probe_def [symmetric])
    next
      case 2
      have "fst (bisect E l h st2) = Inr N"
        using bisect_exact [OF assms(1) 2(2,3)] .
      then obtain st3 where "bisect E l h st2 = (Inr N, st3)"
        by (cases "bisect E l h st2") auto
      with f 2(1) show ?thesis
        by (simp add: findLatestDraw_def getCache_def Let_def probe_def [symmetric])
    qed
  qed
qed



lemma fetchDrawOnce_upto:
  "fst (fetchDrawOnce (server (upstream_upto N) clk) no st) =
     (if no \<le> N then Inr (Some (the_draw no)) else Inr None)"
  by (simp add: fetchDrawOnce_def fetchJson_def request_def readJson_def server_def
      upstream_upto_def draw_reply_def no_draw_reply_def Let_def readDraw_def the_draw_def
      trim_def is_space_def units_def)

lemma fetchDraw_upto:
  "fst (fetchDraw (server (upstream_upto N) clk) no st) =
     (if no \<le> N then Inr (Some (the_draw no)) else Inr None)"
proof -
  have "attempt (server (upstream_upto N) clk) no st 0 =
      (if no \<le> N then Inr (Some (the_draw no)) else Inr None)"
    by (simp add: attempt_def fetchDrawOnce_upto)
  then show ?thesis
    using retry_first_attempt [of "server (upstream_upto N) clk" no st]
    by (simp add: transient_Inr)
qed

lemma exists_upto_server: "exists_upto (server (upstream_upto N) clk) N"
  by (simp add: exists_upto_def fetchDraw_upto)

theorem findLatestDraw_exact_witness:
  "\<exists>st'. findLatestDraw (server (upstream_upto 500) slow_clock)
           (new_state\<lparr>cache := new_cache\<lparr>latest := 400\<rparr>\<rparr>) = Some (Inr 500, st')"
  using findLatestDraw_exact [OF exists_upto_server, of 500 slow_clock
      "new_state\<lparr>cache := new_cache\<lparr>latest := 400\<rparr>\<rparr>"]
  by (simp add: MAX_DRAW_GUESS_def)

section \<open>The draws that are returned\<close>




text \<open>
  \<open>fetched E no st i\<close> is what \<open>fetchJson\<close> returns in the state that \<open>fetchDraw\<close> is in
  at its attempt \<open>i\<close>, whatever it has slept.
\<close>

lemma fetched_after_attempts:
  "fst (fetchJson E no (after_attempts no i delays st)) = fetched E no st i"
  by (simp add: fetched_def after_attempts_def fetchJson_def request_def)







section \<open>The range fetcher\<close>

subsection \<open>What a resolved range has recorded\<close>

lemma keys_update:
  "keys (c\<lparr>draws := AList.update k v (draws c)\<rparr>) = insert k (keys c)"
  by (simp add: keys_def dom_update)

lemma split_at:
  assumes "k < length ws"
  obtains a b where "ws = a @ ws ! k # b" "drop_at k ws = a @ b"
    "\<And>c. ws[k := c] = a @ c # b"
proof
  show "ws = take k ws @ ws ! k # drop (Suc k) ws"
    using assms by (rule id_take_nth_drop)
  show "drop_at k ws = take k ws @ drop (Suc k) ws"
    by (simp add: drop_at_def)
  show "ws[k := c] = take k ws @ c # drop (Suc k) ws" for c
    using assms by (rule upd_conv_take_nth_drop)
qed

lemma request_eq: "request E no st = (upstream E no (count_list (sent st) no), st\<lparr>sent := no # sent st\<rparr>)"
  by (simp add: request_def)

text \<open>The moves of a worker.\<close>

lemma claim_cases:
  "claim E end' p =
     (if current p > end' then (None, p)
      else (Some (Awaiting (current p) 0 (fst (request E (current p) (world p)))),
            p\<lparr>current := current p + 1,
              world := (world p)\<lparr>sent := current p # sent (world p)\<rparr>\<rparr>))"
  by (simp add: claim_def Let_def request_def)

lemma pool_step_cases:
  assumes "workers p \<noteq> []"
  obtains a b w where "workers p = a @ w # b"
    and "pool_step E end' p =
      (case w of
         Awaiting no n response \<Rightarrow>
           (case received E response of
              Inr draw \<Rightarrow> next_claim E end' (length a) (record_draw no draw p)
            | Inl e \<Rightarrow>
                if name e = ''HtmlResponseError''
                then p\<lparr>workers := a @ b,
                       rejection := (case rejection p of None \<Rightarrow> Some e | Some e' \<Rightarrow> Some e')\<rparr>
                else p\<lparr>workers := a @ Sleeping no n # b,
                       world := sleep (250 * (n + 1)) (world p)\<rparr>)
       | Sleeping no n \<Rightarrow>
           if n + 1 \<le> RETRIES
           then p\<lparr>workers := a @ Awaiting no (n + 1) (fst (request E no (world p))) # b,
                  world := (world p)\<lparr>sent := no # sent (world p)\<rparr>\<rparr>
           else next_claim E end' (length a) (record_draw no None p))"
proof -
  define ws where "ws = workers p"
  define k where "k = sched E (sent (world p)) (map draw_no ws) mod length ws"
  from assms have k: "k < length ws"
    by (simp add: k_def ws_def)
  have ws: "ws = take k ws @ ws ! k # drop (Suc k) ws"
    using k by (rule id_take_nth_drop)
  have len: "length (take k ws) = k"
    using k by simp
  have upd: "ws[k := c] = take k ws @ c # drop (Suc k) ws" for c
    using k by (rule upd_conv_take_nth_drop)
  have "pool_step E end' p =
      (case ws ! k of
         Awaiting no n response \<Rightarrow>
           (case received E response of
              Inr draw \<Rightarrow> next_claim E end' k (record_draw no draw p)
            | Inl e \<Rightarrow>
                if name e = ''HtmlResponseError''
                then p\<lparr>workers := take k ws @ drop (Suc k) ws,
                       rejection := (case rejection p of None \<Rightarrow> Some e | Some e' \<Rightarrow> Some e')\<rparr>
                else p\<lparr>workers := take k ws @ Sleeping no n # drop (Suc k) ws,
                       world := sleep (250 * (n + 1)) (world p)\<rparr>)
       | Sleeping no n \<Rightarrow>
           if n + 1 \<le> RETRIES
           then p\<lparr>workers := take k ws @ Awaiting no (n + 1) (fst (request E no (world p)))
                               # drop (Suc k) ws,
                  world := (world p)\<lparr>sent := no # sent (world p)\<rparr>\<rparr>
           else next_claim E end' k (record_draw no None p))"
  proof (cases "ws ! k")
    case (Awaiting no n response)
    then show ?thesis
      by (simp add: pool_step_def Let_def ws_def [symmetric] k_def [symmetric] drop_at_def upd
          split: sum.split)
  next
    case (Sleeping no n)
    then show ?thesis
      by (simp add: pool_step_def Let_def ws_def [symmetric] k_def [symmetric] upd request_eq)
  qed
  then have "pool_step E end' p =
      (case ws ! k of
         Awaiting no n response \<Rightarrow>
           (case received E response of
              Inr draw \<Rightarrow> next_claim E end' (length (take k ws)) (record_draw no draw p)
            | Inl e \<Rightarrow>
                if name e = ''HtmlResponseError''
                then p\<lparr>workers := take k ws @ drop (Suc k) ws,
                       rejection := (case rejection p of None \<Rightarrow> Some e | Some e' \<Rightarrow> Some e')\<rparr>
                else p\<lparr>workers := take k ws @ Sleeping no n # drop (Suc k) ws,
                       world := sleep (250 * (n + 1)) (world p)\<rparr>)
       | Sleeping no n \<Rightarrow>
           if n + 1 \<le> RETRIES
           then p\<lparr>workers := take k ws @ Awaiting no (n + 1) (fst (request E no (world p)))
                               # drop (Suc k) ws,
                  world := (world p)\<lparr>sent := no # sent (world p)\<rparr>\<rparr>
           else next_claim E end' (length (take k ws)) (record_draw no None p))"
    by (simp only: len)
  with ws show thesis
    unfolding ws_def by (rule that)
qed

lemma next_claim_cases:
  assumes "workers p = a @ w # b"
  shows "next_claim E end' (length a) p =
     (if current p > end' then p\<lparr>workers := a @ b\<rparr>
      else p\<lparr>current := current p + 1,
             world := (world p)\<lparr>sent := current p # sent (world p)\<rparr>,
             workers := a @ Awaiting (current p) 0 (fst (request E (current p) (world p))) # b\<rparr>)"
  using assms by (simp add: next_claim_def claim_cases drop_at_def)

lemma run_workers_invariant:
  "P p \<Longrightarrow> (\<And>q. P q \<Longrightarrow> workers q \<noteq> [] \<Longrightarrow> P (pool_step E end' q)) \<Longrightarrow>
   P (run_workers E end' p)"
proof (induction E end' p rule: run_workers.induct)
  case (1 E end' p)
  show ?case
  proof (cases "workers p = []")
    case True
    with 1 show ?thesis
      by (simp add: run_workers.simps)
  next
    case False
    from "1.prems"(1) False have "P (pool_step E end' p)"
      by (rule "1.prems"(2))
    with False have "P (run_workers E end' (pool_step E end' p))"
      using "1.prems"(2) by (rule "1.IH")
    with False show ?thesis
      by (subst run_workers.simps) simp
  qed
qed

lemma run_workers_rest: "workers (run_workers E end' p) = []"
proof (induction E end' p rule: run_workers.induct)
  case (1 E end' p)
  then show ?case
    by (subst run_workers.simps) simp
qed


lemma record_draw_fields:
  "workers (record_draw no d p) = workers p"
  "current (record_draw no d p) = current p"
  "rejection (record_draw no d p) = rejection p"
  "missed (record_draw no d p) = (case d of None \<Rightarrow> missed p @ [no] | Some x \<Rightarrow> missed p)"
  "cache (world (record_draw no d p)) =
     (case d of None \<Rightarrow> cache (world p)
      | Some x \<Rightarrow> (cache (world p))\<lparr>draws := AList.update no x (draws (cache (world p)))\<rparr>)"
  by (simp_all add: record_draw_def split: option.split)

text \<open>
  What a step of the pool does to the draws in flight, the counter, the missing draws,
  the rejection and the cache: nothing, or a worker ends on an error, or a worker has its
  result and goes back to the head of its loop.
\<close>

lemma settle_moves:
  fixes E end' d
  assumes "workers p = a @ w # b"
  defines "p' \<equiv> next_claim E end' (length a) (record_draw (draw_no w) d p)"
  shows "rejection p' = rejection p"
    and "missed p' = (case d of None \<Rightarrow> missed p @ [draw_no w] | Some x \<Rightarrow> missed p)"
    and "cache (world p') =
      (case d of None \<Rightarrow> cache (world p)
       | Some x \<Rightarrow> (cache (world p))\<lparr>draws := AList.update (draw_no w) x (draws (cache (world p)))\<rparr>)"
    and "current p' = (if current p > end' then current p else current p + 1)"
    and "in_flight p' =
      (if current p > end' then map draw_no a @ map draw_no b
       else map draw_no a @ current p # map draw_no b)"
proof -
  have ws: "workers (record_draw (draw_no w) d p) = a @ w # b"
    using assms(1) by (simp add: record_draw_fields)
  show "rejection p' = rejection p"
    "missed p' = (case d of None \<Rightarrow> missed p @ [draw_no w] | Some x \<Rightarrow> missed p)"
    "cache (world p') =
      (case d of None \<Rightarrow> cache (world p)
       | Some x \<Rightarrow> (cache (world p))\<lparr>draws := AList.update (draw_no w) x (draws (cache (world p)))\<rparr>)"
    "current p' = (if current p > end' then current p else current p + 1)"
    "in_flight p' =
      (if current p > end' then map draw_no a @ map draw_no b
       else map draw_no a @ current p # map draw_no b)"
    unfolding p'_def next_claim_cases [OF ws]
    by (simp_all add: record_draw_fields in_flight_def)
qed

lemma pool_step_moves:
  assumes "workers p \<noteq> []"
  obtains
    (same) "in_flight (pool_step E end' p) = in_flight p"
      "current (pool_step E end' p) = current p"
      "missed (pool_step E end' p) = missed p"
      "rejection (pool_step E end' p) = rejection p"
      "cache (world (pool_step E end' p)) = cache (world p)"
  | (reject) fa no fb where "in_flight p = fa @ no # fb"
      "in_flight (pool_step E end' p) = fa @ fb"
      "current (pool_step E end' p) = current p"
      "missed (pool_step E end' p) = missed p"
      "rejection (pool_step E end' p) \<noteq> None"
      "cache (world (pool_step E end' p)) = cache (world p)"
  | (settle) fa no fb d where "in_flight p = fa @ no # fb"
      "rejection (pool_step E end' p) = rejection p"
      "missed (pool_step E end' p) = (case d of None \<Rightarrow> missed p @ [no] | Some x \<Rightarrow> missed p)"
      "cache (world (pool_step E end' p)) =
        (case d of None \<Rightarrow> cache (world p)
         | Some x \<Rightarrow> (cache (world p))\<lparr>draws := AList.update no x (draws (cache (world p)))\<rparr>)"
      "current (pool_step E end' p) = (if current p > end' then current p else current p + 1)"
      "in_flight (pool_step E end' p) = (if current p > end' then fa @ fb else fa @ current p # fb)"
proof -
  from assms obtain a b w where ws: "workers p = a @ w # b"
    and step: "pool_step E end' p =
      (case w of
         Awaiting no n response \<Rightarrow>
           (case received E response of
              Inr draw \<Rightarrow> next_claim E end' (length a) (record_draw no draw p)
            | Inl e \<Rightarrow>
                if name e = ''HtmlResponseError''
                then p\<lparr>workers := a @ b,
                       rejection := (case rejection p of None \<Rightarrow> Some e | Some e' \<Rightarrow> Some e')\<rparr>
                else p\<lparr>workers := a @ Sleeping no n # b,
                       world := sleep (250 * (n + 1)) (world p)\<rparr>)
       | Sleeping no n \<Rightarrow>
           if n + 1 \<le> RETRIES
           then p\<lparr>workers := a @ Awaiting no (n + 1) (fst (request E no (world p))) # b,
                  world := (world p)\<lparr>sent := no # sent (world p)\<rparr>\<rparr>
           else next_claim E end' (length a) (record_draw no None p))"
    by (rule pool_step_cases)
  show thesis
  proof (cases w)
    case (Awaiting no n response)
    show ?thesis
    proof (cases "received E response")
      case (Inr draw)
      with step Awaiting
      have "pool_step E end' p = next_claim E end' (length a) (record_draw (draw_no w) draw p)"
        by simp
      with settle_moves [OF ws, of E end' draw] ws show ?thesis
        by (intro settle [of "map draw_no a" "draw_no w" "map draw_no b" draw])
          (simp_all add: in_flight_def)
    next
      case (Inl e)
      show ?thesis
      proof (cases "name e = ''HtmlResponseError''")
        case True
        with step Awaiting Inl ws show ?thesis
          by (intro reject [of "map draw_no a" no "map draw_no b"])
            (simp_all add: in_flight_def split: option.split)
      next
        case False
        with step Awaiting Inl ws show ?thesis
          by (intro same) (simp_all add: in_flight_def sleep_def)
      qed
    qed
  next
    case (Sleeping no n)
    show ?thesis
    proof (cases "n + 1 \<le> RETRIES")
      case True
      with step Sleeping ws show ?thesis
        by (intro same) (simp_all add: in_flight_def)
    next
      case False
      with step Sleeping
      have "pool_step E end' p = next_claim E end' (length a) (record_draw (draw_no w) None p)"
        by simp
      with settle_moves [OF ws, of E end' None] ws show ?thesis
        by (intro settle [of "map draw_no a" "draw_no w" "map draw_no b" None])
          (simp_all add: in_flight_def)
    qed
  qed
qed


lemma bounded_step:
  assumes "bounded start end' c p" and "workers p \<noteq> []"
  shows "bounded start end' c (pool_step E end' p)"
  using assms(2)
proof (cases rule: pool_step_moves [of p E end'])
  case same
  with assms(1) show ?thesis
    by (simp add: bounded_def)
next
  case (reject fa no fb)
  with assms(1) show ?thesis
    by (simp add: bounded_def)
next
  case (settle fa no fb d)
  show ?thesis
  proof (cases d)
    case None
    with assms(1) settle show ?thesis
      by (auto simp: bounded_def)
  next
    case (Some x)
    with assms(1) settle show ?thesis
      by (auto simp: bounded_def keys_update)
  qed
qed

lemma covered_step:
  assumes "covered start end' p" and "workers p \<noteq> []"
  shows "covered start end' (pool_step E end' p)"
  using assms(2)
proof (cases rule: pool_step_moves [of p E end'])
  case same
  with assms(1) show ?thesis
    by (simp add: covered_def)
next
  case (reject fa no fb)
  then show ?thesis
    by (auto simp: covered_def)
next
  case (settle fa no fb d)
  show ?thesis
  proof (cases d)
    case None
    with assms(1) settle show ?thesis
      by (auto simp: covered_def)
  next
    case (Some x)
    with assms(1) settle show ?thesis
      by (auto simp: covered_def keys_update)
  qed
qed

lemma busy_step:
  assumes "workers p \<noteq> []"
  shows "busy end' (pool_step E end' p)"
  using assms
proof (cases rule: pool_step_moves [of p E end'])
  case same
  with assms show ?thesis
    by (simp add: busy_def in_flight_def)
next
  case (reject fa no fb)
  then show ?thesis
    by (auto simp: busy_def)
next
  case (settle fa no fb d)
  then show ?thesis
    by (simp add: busy_def)
qed

lemma fresh_step:
  assumes "pool_fresh p" and "bounded start end' c p" and "keys c \<inter> {start..end'} = {}"
    and "workers p \<noteq> []"
  shows "pool_fresh (pool_step E end' p)"
  using assms(4)
proof (cases rule: pool_step_moves [of p E end'])
  case same
  with assms(1) show ?thesis
    by (simp add: pool_fresh_def)
next
  case (reject fa no fb)
  with assms(1) show ?thesis
    by (auto simp: pool_fresh_def)
next
  case (settle fa no fb d)
  have new: "current p \<notin> set (in_flight p) \<union> set (missed p) \<union> keys (cache (world p))"
    if "current p \<le> end'"
    using assms(2,3) that unfolding bounded_def by auto
  show ?thesis
  proof (cases d)
    case None
    with assms(1) settle new show ?thesis
      by (auto simp: pool_fresh_def)
  next
    case (Some x)
    with assms(1) settle new show ?thesis
      by (auto simp: pool_fresh_def keys_update)
  qed
qed

lemma frame_step:
  assumes "workers p \<noteq> []"
  shows "\<exists>ds. cache (world (pool_step E end' p)) = (cache (world p))\<lparr>draws := ds\<rparr>"
  using assms
proof (cases rule: pool_step_moves [of p E end'])
  case same
  then have "cache (world (pool_step E end' p)) = (cache (world p))\<lparr>draws := draws (cache (world p))\<rparr>"
    by simp
  then show ?thesis ..
next
  case (reject fa no fb)
  then have "cache (world (pool_step E end' p)) = (cache (world p))\<lparr>draws := draws (cache (world p))\<rparr>"
    by simp
  then show ?thesis ..
next
  case (settle fa no fb d)
  then show ?thesis
    by (cases d) (auto intro: exI [of _ "draws (cache (world p))"])
qed


text \<open>The workers as \<open>start_workers\<close> leaves them.\<close>

lemma start_workers_invariant:
  assumes "P p"
    and "\<And>q q'. \<lbrakk>P q; current q \<le> end'; in_flight q' = in_flight q @ [current q];
            current q' = current q + 1; missed q' = missed q; rejection q' = rejection q;
            cache (world q') = cache (world q)\<rbrakk> \<Longrightarrow> P q'"
  shows "P (start_workers E end' n p)"
  using assms(1)
proof (induction n arbitrary: p)
  case 0
  then show ?case by simp
next
  case (Suc n)
  show ?case
  proof (cases "current p > end'")
    case True
    with Suc show ?thesis
      by (simp add: claim_cases)
  next
    case False
    let ?q = "p\<lparr>current := current p + 1,
                world := (world p)\<lparr>sent := current p # sent (world p)\<rparr>,
                workers := workers p @ [Awaiting (current p) 0 (fst (request E (current p) (world p)))]\<rparr>"
    from False have "current p \<le> end'"
      by simp
    with Suc.prems have "P ?q"
      by (rule assms(2)) (simp_all add: in_flight_def)
    then have "P (start_workers E end' n ?q)"
      by (rule Suc.IH)
    with False show ?thesis
      by (simp add: claim_cases)
  qed
qed

lemma start_workers_busy:
  assumes "0 < n"
  shows "busy end' (start_workers E end' n p)"
proof -
  have idle: "start_workers E end' k q = q" if "current q > end'" for k q
    using that by (induction k) (simp_all add: claim_cases)
  have more: "in_flight (start_workers E end' k q) \<noteq> []" if "in_flight q \<noteq> []" for k q
    using that by (rule start_workers_invariant) simp
  from assms obtain k where n: "n = Suc k"
    by (cases n) simp_all
  show ?thesis
  proof (cases "current p > end'")
    case True
    then show ?thesis
      by (simp add: idle busy_def)
  next
    case False
    let ?q = "p\<lparr>current := current p + 1,
                world := (world p)\<lparr>sent := current p # sent (world p)\<rparr>,
                workers := workers p @ [Awaiting (current p) 0 (fst (request E (current p) (world p)))]\<rparr>"
    have "in_flight (start_workers E end' k ?q) \<noteq> []"
      by (rule more) (simp add: in_flight_def)
    with False show ?thesis
      by (simp add: n claim_cases busy_def)
  qed
qed

lemma pool_ok_step:
  assumes "pool_ok start end' c p" and "workers p \<noteq> []"
  shows "pool_ok start end' c (pool_step E end' p)"
proof -
  from frame_step [OF assms(2)]
  obtain ds where "cache (world (pool_step E end' p)) = (cache (world p))\<lparr>draws := ds\<rparr>" ..
  moreover from assms(1) have "cache (world p) = c\<lparr>draws := draws (cache (world p))\<rparr>"
    by (simp add: pool_ok_def)
  ultimately have "cache (world (pool_step E end' p)) = c\<lparr>draws := draws (cache (world p))\<rparr>\<lparr>draws := ds\<rparr>"
    by simp
  then have "cache (world (pool_step E end' p))
      = c\<lparr>draws := draws (cache (world (pool_step E end' p)))\<rparr>"
    by simp
  with assms bounded_step [of start end' c p E] covered_step [of start end' p E]
    fresh_step [of p start end' c E]
  show ?thesis
    by (simp add: pool_ok_def)
qed

lemma pool_ok_start:
  "pool_ok start end' (cache st)
     (start_workers E end' n
        \<lparr>current = start, workers = [], missed = [], rejection = None, world = st\<rparr>)"
proof (rule start_workers_invariant)
  show "pool_ok start end' (cache st)
      \<lparr>current = start, workers = [], missed = [], rejection = None, world = st\<rparr>"
    by (auto simp: pool_ok_def bounded_def covered_def pool_fresh_def in_flight_def)
next
  fix q q' :: Pool
  assume q: "pool_ok start end' (cache st) q" "current q \<le> end'"
    and q': "in_flight q' = in_flight q @ [current q]" "current q' = current q + 1"
      "missed q' = missed q" "rejection q' = rejection q" "cache (world q') = cache (world q)"
  from q have b: "bounded start end' (cache st) q'"
    unfolding pool_ok_def bounded_def q' by auto
  from q have c: "covered start end' q'"
    unfolding pool_ok_def covered_def q' by auto
  have f: "pool_fresh q'" if "keys (cache st) \<inter> {start..end'} = {}"
    using q that unfolding pool_ok_def bounded_def pool_fresh_def q' by auto
  from q b c f show "pool_ok start end' (cache st) q'"
    by (simp add: pool_ok_def q')
qed

lemma fetchRange_records:
  assumes "fetchRange E start end' [] st = (Inr ms, st')"
  shows "{start..end'} \<subseteq> keys (cache st') \<union> set ms"
    and "set ms \<subseteq> {start..end'}"
    and "keys (cache st') \<subseteq> keys (cache st) \<union> {start..end'}"
    and "keys (cache st) \<subseteq> keys (cache st')"
    and "cache st' = (cache st)\<lparr>draws := draws (cache st')\<rparr>"
    and "keys (cache st) \<inter> {start..end'} = {} \<Longrightarrow> distinct ms \<and> keys (cache st') \<inter> set ms = {}"
proof -
  define p where "p = start_workers E end' CONCURRENCY
      \<lparr>current = start, workers = [], missed = [], rejection = None, world = st\<rparr>"
  define p' where "p' = run_workers E end' p"
  from assms have r: "rejection p' = None" "ms = missed p'" "st' = world p'"
    by (simp_all add: fetchRange_def p'_def p_def Let_def split: option.splits)
  have "pool_ok start end' (cache st) p"
    unfolding p_def by (rule pool_ok_start)
  then have ok: "pool_ok start end' (cache st) p'"
    unfolding p'_def by (rule run_workers_invariant) (rule pool_ok_step)
  have "busy end' p"
    unfolding p_def by (rule start_workers_busy) (simp add: CONCURRENCY_def)
  then have "busy end' p'"
    unfolding p'_def by (rule run_workers_invariant) (rule busy_step)
  moreover have rest: "in_flight p' = []"
    by (simp add: in_flight_def p'_def run_workers_rest)
  ultimately have past: "end' < current p'"
    using r(1) by (simp add: busy_def)
  from ok r(1) rest past show "{start..end'} \<subseteq> keys (cache st') \<union> set ms"
    unfolding pool_ok_def covered_def r(2,3) by auto
  from ok rest show "set ms \<subseteq> {start..end'}"
    unfolding pool_ok_def bounded_def r(2,3) by auto
  from ok show "keys (cache st') \<subseteq> keys (cache st) \<union> {start..end'}"
    unfolding pool_ok_def bounded_def r(2,3) by auto
  from ok show "keys (cache st) \<subseteq> keys (cache st')"
    unfolding pool_ok_def bounded_def r(2,3) by auto
  from ok show "cache st' = (cache st)\<lparr>draws := draws (cache st')\<rparr>"
    unfolding pool_ok_def r(2,3) by simp
  show "distinct ms \<and> keys (cache st') \<inter> set ms = {}"
    if "keys (cache st) \<inter> {start..end'} = {}"
    using ok that unfolding pool_ok_def pool_fresh_def r(2,3) by auto
qed

subsection \<open>A range of one draw\<close>

lemma run_workers_done: "workers p = [] \<Longrightarrow> run_workers E end' p = p"
  by (simp add: run_workers.simps)

lemma run_workers_go:
  "workers p \<noteq> [] \<Longrightarrow> run_workers E end' p = run_workers E end' (pool_step E end' p)"
  by (subst run_workers.simps) simp

lemma fetchDrawOnce_received:
  "fetchDrawOnce E no st = (received E (fst (request E no st)), snd (request E no st))"
  by (simp add: fetchDrawOnce_def fetchJson_def received_def case_prod_beta split: sum.split)

lemma pool_step_single:
  assumes "workers p = [w]"
  shows "pool_step E end' p =
     (case w of
        Awaiting no a response \<Rightarrow>
          (case received E response of
             Inr draw \<Rightarrow> next_claim E end' 0 (record_draw no draw p)
           | Inl e \<Rightarrow>
               if name e = ''HtmlResponseError''
               then p\<lparr>workers := [],
                      rejection := (case rejection p of None \<Rightarrow> Some e | Some e' \<Rightarrow> Some e')\<rparr>
               else p\<lparr>workers := [Sleeping no a], world := sleep (250 * (a + 1)) (world p)\<rparr>)
      | Sleeping no a \<Rightarrow>
          if a + 1 \<le> RETRIES
          then p\<lparr>workers := [Awaiting no (a + 1) (fst (request E no (world p)))],
                 world := snd (request E no (world p))\<rparr>
          else next_claim E end' 0 (record_draw no None p))"
  using assms
  by (cases w) (simp_all add: pool_step_def Let_def drop_at_def case_prod_beta split: sum.split)

lemma next_claim_last:
  "workers p = [w] \<Longrightarrow> current p > end' \<Longrightarrow> next_claim E end' 0 p = p\<lparr>workers := []\<rparr>"
  by (simp add: next_claim_def claim_cases drop_at_def)

text \<open>
  The last worker of a pool, with nothing left to claim, goes through its \<open>fetchDraw\<close>
  as \<open>fetchDraw_from\<close> does.
\<close>

lemma last_worker:
  assumes "a \<le> RETRIES" and "current p > end'"
    and "workers p = [Awaiting no a (fst (request E no st))]"
    and "world p = snd (request E no st)"
  shows "run_workers E end' p =
     (case fetchDraw_from E no a st of
        (Inl e, st') \<Rightarrow>
          p\<lparr>workers := [], world := st',
            rejection := (case rejection p of None \<Rightarrow> Some e | Some e' \<Rightarrow> Some e')\<rparr>
      | (Inr d, st') \<Rightarrow> record_draw no d (p\<lparr>workers := [], world := st'\<rparr>))"
  using assms
proof (induction "RETRIES - a" arbitrary: a p st rule: less_induct)
  case less
  let ?r = "received E (fst (request E no st))"
  let ?st = "snd (request E no st)"
  have once: "fetchDrawOnce E no st = (?r, ?st)"
    by (rule fetchDrawOnce_received)
  have ne: "workers p \<noteq> []"
    using less.prems(3) by simp
  show ?case
  proof (cases ?r)
    case (Inr d)
    have "run_workers E end' p = record_draw no d p\<lparr>workers := []\<rparr>"
      using less.prems Inr
      by (simp add: run_workers_go [OF ne] pool_step_single [OF less.prems(3)]
          next_claim_last [of _ "Awaiting no a (fst (request E no st))"] record_draw_fields
          run_workers_done)
    with less.prems Inr show ?thesis
      by (subst fetchDraw_from_step)
        (simp add: once transient_Inr RETRIES_def request_def record_draw_def
          split: option.split)
  next
    case (Inl e)
    show ?thesis
    proof (cases "name e = ''HtmlResponseError''")
      case True
      with less.prems Inl show ?thesis
        by (subst fetchDraw_from_step)
          (simp add: once run_workers_go [OF ne] pool_step_single [OF less.prems(3)]
            run_workers_done transient_def name_Html RETRIES_def request_def)
    next
      case False
      let ?p1 = "p\<lparr>workers := [Sleeping no a], world := sleep (250 * (a + 1)) ?st\<rparr>"
      have s1: "run_workers E end' p = run_workers E end' ?p1"
        using less.prems Inl False
        by (simp add: run_workers_go [OF ne] pool_step_single [OF less.prems(3)])
      show ?thesis
      proof (cases "a + 1 \<le> RETRIES")
        case True
        let ?st1 = "sleep (250 * (a + 1)) ?st"
        let ?p2 = "p\<lparr>workers := [Awaiting no (a + 1) (fst (request E no ?st1))],
                     world := snd (request E no ?st1)\<rparr>"
        have s2: "run_workers E end' ?p1 = run_workers E end' ?p2"
          using True
          by (subst run_workers_go) (simp_all add: pool_step_single [of _ "Sleeping no a"])
        have "run_workers E end' ?p2 =
          (case fetchDraw_from E no (a + 1) ?st1 of
             (Inl e, st') \<Rightarrow>
               ?p2\<lparr>workers := [], world := st',
                 rejection := (case rejection ?p2 of None \<Rightarrow> Some e | Some e' \<Rightarrow> Some e')\<rparr>
           | (Inr d, st') \<Rightarrow> record_draw no d (?p2\<lparr>workers := [], world := st'\<rparr>))"
          using True less.prems(1,2) by (intro less.hyps) simp_all
        with s1 s2 Inl False less.prems(1) show ?thesis
          by (subst fetchDraw_from_step)
            (simp add: once transient_def name_Html RETRIES_def request_def record_draw_def
              split: prod.split sum.split option.split)
      next
        case past: False
        have "run_workers E end' ?p1 = record_draw no None (?p1\<lparr>workers := []\<rparr>)"
          using past less.prems(2)
          by (subst run_workers_go)
            (simp_all add: pool_step_single [of _ "Sleeping no a"]
              next_claim_last [of _ "Sleeping no a"] record_draw_fields run_workers_done
              record_draw_def)
        moreover have "fetchDraw_from E no (a + 1) s = (Inr None, s)" for s
          using past by (subst fetchDraw_from_step) (simp add: RETRIES_def)
        ultimately show ?thesis
          using s1 Inl False less.prems(1)
          by (subst fetchDraw_from_step)
            (simp add: once transient_def name_Html RETRIES_def request_def record_draw_def)
      qed
    qed
  qed
qed


text \<open>
  On a range of one draw the pool has one worker, and \<open>fetchRange\<close> is \<open>fetchDraw\<close> with
  its result recorded.
\<close>

lemma fetchRange_single:
  "fetchRange E no no ms st =
     (case fetchDraw E no st of
        (Inl e, st') \<Rightarrow> (Inl e, st')
      | (Inr None, st') \<Rightarrow> (Inr (ms @ [no]), st')
      | (Inr (Some d), st') \<Rightarrow>
          (Inr ms, st'\<lparr>cache := (cache st')\<lparr>draws := AList.update no d (draws (cache st'))\<rparr>\<rparr>))"
proof -
  let ?init = "\<lparr>current = no, workers = [], missed = ms, rejection = None, world = st\<rparr>"
  let ?p = "\<lparr>current = no + 1, workers = [Awaiting no 0 (fst (request E no st))], missed = ms,
             rejection = None, world = snd (request E no st)\<rparr>"
  have idle: "start_workers E no k q = q" if "current q > no" for k q
    using that by (induction k) (simp_all add: claim_cases)
  have "start_workers E no CONCURRENCY ?init = start_workers E no 5 ?p"
    by (simp add: CONCURRENCY_def eval_nat_numeral claim_cases request_def)
  also have "\<dots> = ?p"
    by (rule idle) simp
  finally have start: "start_workers E no CONCURRENCY ?init = ?p" .
  have "run_workers E no ?p =
     (case fetchDraw_from E no 0 st of
        (Inl e, st') \<Rightarrow>
          ?p\<lparr>workers := [], world := st',
            rejection := (case rejection ?p of None \<Rightarrow> Some e | Some e' \<Rightarrow> Some e')\<rparr>
      | (Inr d, st') \<Rightarrow> record_draw no d (?p\<lparr>workers := [], world := st'\<rparr>))"
    by (rule last_worker) simp_all
  moreover have "fetchRange E no no ms st =
     (case rejection (run_workers E no ?p) of
        Some e \<Rightarrow> Inl e
      | None \<Rightarrow> Inr (missed (run_workers E no ?p)), world (run_workers E no ?p))"
    by (simp only: fetchRange_def Let_def start)
  ultimately show ?thesis
    by (simp add: fetchDraw_def record_draw_def split: prod.split sum.split option.split)
qed

section \<open>The coordinator\<close>

lemma stillBlocked_cache: "stillBlocked E st = (b, st1) \<Longrightarrow> cache st1 = cache st"
  by (auto simp: stillBlocked_def now_def split: option.splits if_splits)


lemma updateCache_skipped:
  assumes "blockedUntil (cache st) = Some b" and "int (clock E (ticks st)) < b"
  shows "updateCache E st =
     Some (Inr ((cache st)\<lparr>updatedAt := int (clock E (Suc (ticks st)))\<rparr>),
           st\<lparr>cache := (cache st)\<lparr>updatedAt := int (clock E (Suc (ticks st)))\<rparr>,
              ticks := Suc (Suc (ticks st))\<rparr>)"
proof -
  from assms have "b \<noteq> 0" by auto
  with assms show ?thesis
    by (simp add: updateCache_def stillBlocked_def now_def set_updatedAt_def)
qed

lemma updateCache_html:
  assumes "stillBlocked E st = (False, st1)"
    and "findLatestDraw E st1 = Some (Inl HtmlResponseError, st2)"
  shows "updateCache E st =
     Some (Inr ((cache st)\<lparr>blockedUntil := Some (int (clock E (ticks st2)) + BLOCK_TTL_MS),
                            updatedAt := int (clock E (Suc (ticks st2)))\<rparr>),
           st2\<lparr>cache := (cache st)\<lparr>blockedUntil := Some (int (clock E (ticks st2)) + BLOCK_TTL_MS),
                                      updatedAt := int (clock E (Suc (ticks st2)))\<rparr>,
               ticks := Suc (Suc (ticks st2))\<rparr>)"
proof -
  from findLatestDraw_total [of E st1] assms(2) have "cache st2 = cache st1"
    by auto
  with stillBlocked_cache [OF assms(1)] have "cache st2 = cache st"
    by simp
  with assms show ?thesis
    by (simp add: updateCache_def now_def set_updatedAt_def set_blockedUntil_def)
qed

text \<open>
  Claim C6. When a sync starts while \<open>blockedUntil\<close> is set and the clock reads a time
  before it, \<open>updateCache\<close> resolves, sends no request, and changes nothing in the cache
  but \<open>updatedAt\<close>, which it sets to the next reading of the clock.
\<close>

theorem blocked_sync_only_refreshes:
  assumes "blockedUntil (cache st) = Some b" and "int (clock E (ticks st)) < b"
  shows "\<exists>st'. updateCache E st = Some (Inr (cache st'), st')
           \<and> sent st' = sent st
           \<and> cache st' = (cache st)\<lparr>updatedAt := int (clock E (Suc (ticks st)))\<rparr>"
  using updateCache_skipped [OF assms] by simp

theorem blocked_sync_only_refreshes_witness:
  "\<exists>st'. updateCache (server all_html two_visits)
            (new_state\<lparr>cache := new_cache\<lparr>blockedUntil := Some 50900000\<rparr>\<rparr>)
          = Some (Inr (cache st'), st')
       \<and> sent st' = []
       \<and> cache st' = new_cache\<lparr>blockedUntil := Some 50900000, updatedAt := 50000000\<rparr>"
  using blocked_sync_only_refreshes [of "new_state\<lparr>cache := new_cache\<lparr>blockedUntil := Some 50900000\<rparr>\<rparr>"
      50900000 "server all_html two_visits"]
  by (simp add: new_state_def new_cache_def server_def two_visits_def)

text \<open>
  Claim C5. When a sync is not skipped and \<open>findLatestDraw\<close> throws \<open>HtmlResponseError\<close>,
  \<open>updateCache\<close> resolves to the cache, in which \<open>blockedUntil\<close> is the clock's reading plus
  \<open>BLOCK_TTL_MS\<close>, 15 minutes, \<open>updatedAt\<close> is the clock's next reading, and \<open>latest\<close>,
  \<open>draws\<close> and \<open>missing\<close> are as before.
\<close>

theorem html_in_locator_blocks:
  assumes "stillBlocked E st = (False, st1)"
    and "findLatestDraw E st1 = Some (Inl HtmlResponseError, st2)"
  shows "\<exists>st'. updateCache E st = Some (Inr (cache st'), st')
           \<and> cache st' = (cache st)\<lparr>blockedUntil := Some (int (clock E (ticks st2)) + BLOCK_TTL_MS),
                                      updatedAt := int (clock E (Suc (ticks st2)))\<rparr>
           \<and> BLOCK_TTL_MS = 15 * 60 * 1000"
  using updateCache_html [OF assms] by (simp add: BLOCK_TTL_MS_def)

theorem html_in_locator_blocks_witness:
  "\<exists>st'. updateCache (server all_html slow_clock) new_state = Some (Inr (cache st'), st')
       \<and> cache st' = new_cache\<lparr>blockedUntil := Some 50900000, updatedAt := 100000000\<rparr>"
proof -
  have b: "stillBlocked (server all_html slow_clock) new_state = (False, new_state)"
    by (simp add: stillBlocked_def new_state_def new_cache_def)
  have f: "findLatestDraw (server all_html slow_clock) new_state =
      Some (Inl HtmlResponseError, new_state\<lparr>sent := [1100]\<rparr>)"
    by code_simp
  show ?thesis
    using html_in_locator_blocks [OF b f]
    by (simp add: new_state_def new_cache_def server_def slow_clock_def BLOCK_TTL_MS_def)
qed

lemma updateCache_cases:
  assumes "updateCache E st = Some (Inr c', st')"
  obtains (kept) "c' = cache st'" "latest c' = latest (cache st)" "draws c' = draws (cache st)"
      "missing c' = missing (cache st)"
  | (synced) st2 st3 ms where "c' = cache st'" "cache st2 = cache st"
      "(if range_start (cache st) \<le> latest c'
        then fetchRange E (range_start (cache st)) (latest c') [] st2
        else (Inr [], st2)) = (Inr ms, st3)"
      "draws c' = draws (cache st3)" "missing c' = Some ms"
proof -
  obtain b st1 where sb: "stillBlocked E st = (b, st1)"
    by (cases "stillBlocked E st")
  note c1 = stillBlocked_cache [OF sb]
  show ?thesis
  proof (cases b)
    case True
    with assms sb c1 have "c' = cache st' \<and> latest c' = latest (cache st) \<and>
        draws c' = draws (cache st) \<and> missing c' = missing (cache st)"
      by (auto simp: updateCache_def now_def set_updatedAt_def)
    then show ?thesis
      using kept by blast
  next
    case False
    from findLatestDraw_total [of E st1] obtain r st2
      where f: "findLatestDraw E st1 = Some (r, st2)" and c2: "cache st2 = cache st1"
      by blast
    show ?thesis
    proof (cases r)
      case (Inl e)
      with assms sb False f c1 c2 have "c' = cache st' \<and> latest c' = latest (cache st) \<and>
          draws c' = draws (cache st) \<and> missing c' = missing (cache st)"
        by (auto simp: updateCache_def now_def set_updatedAt_def set_blockedUntil_def
            split: if_splits)
      then show ?thesis
        using kept by blast
    next
      case (Inr latest')
      define start where "start = range_start (cache st)"
      have start_eq: "(if latest (cache st2) > 0 then latest (cache st2) + 1 else 1) = start"
        by (simp add: start_def range_start_def c1 c2)
      obtain x st3 where fr: "(if start \<le> latest' then fetchRange E start latest' [] st2
          else (Inr [], st2)) = (x, st3)"
        by (cases "if start \<le> latest' then fetchRange E start latest' [] st2 else (Inr [], st2)")
      have "updateCache E st =
          (case (if start \<le> latest' then fetchRange E start latest' [] st2 else (Inr [], st2)) of
             (Inl e, st3) \<Rightarrow> Some (Inl e, st3)
           | (Inr ms, st3) \<Rightarrow>
               (let st4 = set_latest latest' st3;
                    (t, st5) = now E st4;
                    st6 = set_updatedAt t st5;
                    st7 = set_missing ms st6
                in Some (Inr (cache st7), st7)))"
        using False by (simp add: updateCache_def sb f Inr start_eq split del: if_split)
      then have u: "updateCache E st =
          (case x of
             Inl e \<Rightarrow> Some (Inl e, st3)
           | Inr ms \<Rightarrow>
               (let st4 = set_latest latest' st3;
                    (t, st5) = now E st4;
                    st6 = set_updatedAt t st5;
                    st7 = set_missing ms st6
                in Some (Inr (cache st7), st7)))"
        unfolding fr by simp
      show ?thesis
      proof (cases x)
        case (Inl e)
        with u assms show ?thesis by simp
      next
        case ms: (Inr ms)
        with u assms have "c' = cache st'" "latest c' = latest'" "draws c' = draws (cache st3)"
          "missing c' = Some ms"
          by (auto simp: now_def set_latest_def set_updatedAt_def set_missing_def)
        from fr have "(if range_start (cache st) \<le> latest c'
            then fetchRange E (range_start (cache st)) (latest c') [] st2
            else (Inr [], st2)) = (Inr ms, st3)"
          unfolding start_def ms \<open>latest c' = latest'\<close> .
        moreover have "cache st2 = cache st"
          using c1 c2 by simp
        ultimately show ?thesis
          using synced [of st2 ms st3] \<open>c' = cache st'\<close> \<open>draws c' = draws (cache st3)\<close>
            \<open>missing c' = Some ms\<close>
          by blast
      qed
    qed
  qed
qed

lemma sync_covers:
  assumes "updateCache E st = Some (Inr c', st')"
  shows "c' = cache st'"
    and "{range_start (cache st)..latest c'} \<subseteq> keys c' \<union> set (missing_list c')"
    and "keys c' \<subseteq> keys (cache st) \<union> {range_start (cache st)..latest c'}"
proof -
  from assms have "c' = cache st' \<and>
      {range_start (cache st)..latest c'} \<subseteq> keys c' \<union> set (missing_list c') \<and>
      keys c' \<subseteq> keys (cache st) \<union> {range_start (cache st)..latest c'}"
  proof (cases rule: updateCache_cases)
    case kept
    then have "latest c' < range_start (cache st)" "keys c' = keys (cache st)"
      by (simp_all add: range_start_def keys_def)
    with kept(1) show ?thesis by simp
  next
    case (synced st2 st3 ms)
    show ?thesis
    proof (cases "range_start (cache st) \<le> latest c'")
      case True
      with synced(3)
      have "fetchRange E (range_start (cache st)) (latest c') [] st2 = (Inr ms, st3)"
        by simp
      note fr = fetchRange_records [OF this]
      have k: "keys c' = keys (cache st3)" "set (missing_list c') = set ms"
        using synced(4,5) by (simp_all add: keys_def missing_list_def)
      from fr(1,3) synced(1,2) show ?thesis
        unfolding k by simp
    next
      case False
      with synced(3) have "st3 = st2" by simp
      with synced(2,4) have "keys c' = keys (cache st)"
        by (simp add: keys_def)
      with False synced(1) show ?thesis by simp
    qed
  qed
  then show "c' = cache st'"
    and "{range_start (cache st)..latest c'} \<subseteq> keys c' \<union> set (missing_list c')"
    and "keys c' \<subseteq> keys (cache st) \<union> {range_start (cache st)..latest c'}"
    by blast+
qed


text \<open>How \<open>updateCache\<close> is put together, for the runs below.\<close>

lemma updateCache_synced:
  assumes "stillBlocked E st = (False, st1)"
    and "findLatestDraw E st1 = Some (Inr n, st2)"
    and "range_start (cache st2) \<le> n"
    and "fetchRange E (range_start (cache st2)) n [] st2 = (Inr ms, st3)"
  shows "updateCache E st =
     Some (Inr ((cache st3)\<lparr>latest := n, updatedAt := int (clock E (ticks st3)), missing := Some ms\<rparr>),
           st3\<lparr>cache := (cache st3)\<lparr>latest := n, updatedAt := int (clock E (ticks st3)),
                                       missing := Some ms\<rparr>,
               ticks := Suc (ticks st3)\<rparr>)"
  using assms
  by (simp add: updateCache_def range_start_def now_def set_latest_def set_updatedAt_def
      set_missing_def split: if_splits)

lemma updateCache_nothing_new:
  assumes "stillBlocked E st = (False, st1)"
    and "findLatestDraw E st1 = Some (Inr n, st2)"
    and "n < range_start (cache st2)"
  shows "updateCache E st =
     Some (Inr ((cache st2)\<lparr>latest := n, updatedAt := int (clock E (ticks st2)), missing := Some []\<rparr>),
           st2\<lparr>cache := (cache st2)\<lparr>latest := n, updatedAt := int (clock E (ticks st2)),
                                       missing := Some []\<rparr>,
               ticks := Suc (ticks st2)\<rparr>)"
  using assms
  by (simp add: updateCache_def range_start_def now_def set_latest_def set_updatedAt_def
      set_missing_def split: if_splits)


lemma stillBlocked_unset:
  "blockedUntil (cache st) = None \<Longrightarrow> stillBlocked E st = (False, st)"
  by (simp add: stillBlocked_def)

lemma readyCache_stale:
  "CACHE_TTL_MS \<le> int (clock E (ticks st)) - updatedAt (cache st) \<Longrightarrow>
     readyCache E st = updateCache E (st\<lparr>ticks := Suc (ticks st)\<rparr>)"
  by (simp add: readyCache_def getCache_def now_def)


lemma GET_rejected:
  "readyCache E st = Some (Inl e, st') \<Longrightarrow> GET E param st = Some (Inl e, st')"
  by (simp add: GET_def)

lemma first_sync_run:
  "updateCache (server timeout_at_1 slow_clock) new_state =
     Some (Inr (cache after_first_sync), after_first_sync)"
proof -
  let ?E = "server timeout_at_1 slow_clock"
  let ?st2 = "new_state\<lparr>sent := [3, 2, 4, 8, 17, 34, 68, 137, 275, 550, 1100]\<rparr>"
  let ?st3 = "new_state\<lparr>cache := new_cache\<lparr>draws := [(2, the_draw 2), (3, the_draw 3)]\<rparr>,
      sent := [1, 1, 3, 2, 1, 3, 2, 4, 8, 17, 34, 68, 137, 275, 550, 1100],
      slept := [750, 500, 250]\<rparr>"
  have b: "stillBlocked ?E new_state = (False, new_state)"
    by (rule stillBlocked_unset) (simp add: new_state_def new_cache_def)
  have l: "findLatestDraw ?E new_state = Some (Inr 3, ?st2)"
    by code_simp
  have r: "range_start (cache ?st2) = 1"
    by (simp add: range_start_def new_state_def new_cache_def)
  have f: "fetchRange ?E (range_start (cache ?st2)) 3 [] ?st2 = (Inr [1], ?st3)"
    unfolding r by code_simp
  have r': "range_start (cache ?st2) \<le> 3"
    by (simp add: range_start_def new_state_def new_cache_def)
  show ?thesis
    using updateCache_synced [OF b l r' f]
    by (simp add: after_first_sync_def new_state_def new_cache_def server_def slow_clock_def)
qed

lemma second_sync_run:
  "updateCache (server timeout_at_1 slow_clock) after_first_sync =
     Some (Inr (cache after_second_sync), after_second_sync)"
proof -
  let ?E = "server timeout_at_1 slow_clock"
  let ?st2 = "after_first_sync\<lparr>sent := [4, 6, 3] @ sent after_first_sync\<rparr>"
  have b: "stillBlocked ?E after_first_sync = (False, after_first_sync)"
    by (rule stillBlocked_unset) (simp add: after_first_sync_def)
  have l: "findLatestDraw ?E after_first_sync = Some (Inr 3, ?st2)"
    by code_simp
  have r: "3 < range_start (cache ?st2)"
    by (simp add: range_start_def after_first_sync_def)
  show ?thesis
    using updateCache_nothing_new [OF b l r]
    by (simp add: after_first_sync_def after_second_sync_def server_def slow_clock_def)
qed

text \<open>
  Claim C1, as amended. Once a sync completes, every integer from the first draw number
  that the sync had to fetch (the previous \<open>latest\<close> plus one, or 1 when the previous
  \<open>latest\<close> is not positive) up to the new \<open>latest\<close> is a key of \<open>draws\<close> or an element of
  \<open>missing\<close>, and every key of \<open>draws\<close> was a key before the sync or lies in that range.
  So after the first sync of a new cache every integer in \<open>[1, latest]\<close> is a key or in
  \<open>missing\<close> and no key exceeds \<open>latest\<close>. A \<open>fetchRange\<close> over \<open>[start, end]\<close> that
  resolves records every number of the range in \<open>draws\<close> or in \<open>missing\<close>, lists only
  numbers of the range as missing, and records a number in exactly one of the two when no
  number of the range was a key before.
\<close>

theorem sync_records_fetched_range:
  "(updateCache E st = Some (Inr c', st') \<longrightarrow>
      {range_start (cache st)..latest c'} \<subseteq> keys c' \<union> set (missing_list c')
    \<and> keys c' \<subseteq> keys (cache st) \<union> {range_start (cache st)..latest c'}
    \<and> (cache st = new_cache \<longrightarrow>
          {1..latest c'} \<subseteq> keys c' \<union> set (missing_list c') \<and> keys c' \<subseteq> {1..latest c'}))
   \<and> (fetchRange E start end' [] st = (Inr ms, st1) \<longrightarrow>
      {start..end'} \<subseteq> keys (cache st1) \<union> set ms
    \<and> set ms \<subseteq> {start..end'}
    \<and> (keys (cache st) \<inter> {start..end'} = {} \<longrightarrow> keys (cache st1) \<inter> set ms = {}))"
proof (intro conjI impI)
  assume u: "updateCache E st = Some (Inr c', st')"
  note s = sync_covers [OF u]
  show "{range_start (cache st)..latest c'} \<subseteq> keys c' \<union> set (missing_list c')"
    by (rule s(2))
  show "keys c' \<subseteq> keys (cache st) \<union> {range_start (cache st)..latest c'}"
    by (rule s(3))
  assume "cache st = new_cache"
  then have n: "range_start (cache st) = 1" "keys (cache st) = {}"
    by (simp_all add: new_cache_def range_start_def keys_def)
  from s(2) show "{1..latest c'} \<subseteq> keys c' \<union> set (missing_list c')"
    unfolding n .
  from s(3) show "keys c' \<subseteq> {1..latest c'}"
    unfolding n by simp
next
  assume f: "fetchRange E start end' [] st = (Inr ms, st1)"
  note r = fetchRange_records [OF f]
  show "{start..end'} \<subseteq> keys (cache st1) \<union> set ms"
    by (rule r(1))
  show "set ms \<subseteq> {start..end'}"
    by (rule r(2))
  assume "keys (cache st) \<inter> {start..end'} = {}"
  from r(6) [OF this] show "keys (cache st1) \<inter> set ms = {}"
    by simp
qed

theorem sync_records_fetched_range_witness:
  "updateCache (server timeout_at_1 slow_clock) new_state =
     Some (Inr (cache after_first_sync), after_first_sync)
   \<and> {1..3} \<subseteq> keys (cache after_first_sync) \<union> set (missing_list (cache after_first_sync))
   \<and> keys (cache after_first_sync) \<subseteq> {1..3}
   \<and> fst (fetchRange (server timeout_at_1 slow_clock) 1 3 [] new_state) = Inr [1]
   \<and> keys (cache (snd (fetchRange (server timeout_at_1 slow_clock) 1 3 [] new_state)))
       \<inter> set [1] = {}"
proof -
  let ?E = "server timeout_at_1 slow_clock"
  let ?st1 = "new_state\<lparr>cache := new_cache\<lparr>draws := [(2, the_draw 2), (3, the_draw 3)]\<rparr>,
      sent := [1, 1, 3, 2, 1], slept := [750, 500, 250]\<rparr>"
  have u: "updateCache ?E new_state = Some (Inr (cache after_first_sync), after_first_sync)"
    by (rule first_sync_run)
  have f: "fetchRange ?E 1 3 [] new_state = (Inr [1], ?st1)"
    by code_simp
  have n: "cache new_state = new_cache" "keys (cache new_state) \<inter> {1..3} = {}"
    by (simp_all add: new_state_def new_cache_def keys_def)
  have l: "latest (cache after_first_sync) = 3"
    by (simp add: after_first_sync_def)
  from sync_records_fetched_range
    [of ?E new_state "cache after_first_sync" after_first_sync 1 3 "[1]" ?st1] u f n
  have "{1..latest (cache after_first_sync)}
        \<subseteq> keys (cache after_first_sync) \<union> set (missing_list (cache after_first_sync))
      \<and> keys (cache after_first_sync) \<subseteq> {1..latest (cache after_first_sync)}
      \<and> keys (cache ?st1) \<inter> set [1] = {}"
    by blast
  with u f l show ?thesis
    by simp
qed

text \<open>
  Claim C1 as stated fails at the second sync. The draws 1 to 3 exist and every request
  for draw 1 times out. The first sync records draw 1 as missing. The second sync finds
  nothing new and replaces the list by an empty one: 1 lies in \<open>[1, latest]\<close> and is
  neither a key of \<open>draws\<close> nor in \<open>missing\<close>.
\<close>

theorem second_sync_forgets_missing:
  "updateCache (server timeout_at_1 slow_clock) new_state =
     Some (Inr (cache after_first_sync), after_first_sync)
   \<and> updateCache (server timeout_at_1 slow_clock) after_first_sync =
     Some (Inr (cache after_second_sync), after_second_sync)
   \<and> latest (cache after_second_sync) = 3
   \<and> 1 \<notin> keys (cache after_second_sync)
   \<and> 1 \<notin> set (missing_list (cache after_second_sync))"
proof -
  have "updateCache (server timeout_at_1 slow_clock) new_state =
      Some (Inr (cache after_first_sync), after_first_sync)"
    by (rule first_sync_run)
  moreover have "updateCache (server timeout_at_1 slow_clock) after_first_sync =
      Some (Inr (cache after_second_sync), after_second_sync)"
    by (rule second_sync_run)
  moreover have "latest (cache after_second_sync) = 3"
    by (simp add: after_second_sync_def)
  moreover have "1 \<notin> keys (cache after_second_sync)"
    by (simp add: after_second_sync_def keys_def)
  moreover have "1 \<notin> set (missing_list (cache after_second_sync))"
    by (simp add: after_second_sync_def missing_list_def)
  ultimately show ?thesis
    by (intro conjI)
qed

text \<open>
  Claim C3 fails on the code. The draws 1 to 3 exist and every request for draw 1 gets an
  HTML page. \<open>findLatestDraw\<close> never asks for draw 1 and returns 3; the fetch of draw 1 in
  \<open>fetchRange\<close> throws \<open>HtmlResponseError\<close>, which nothing catches: \<open>updateCache\<close> rejects
  and \<open>GET\<close> throws.
\<close>

theorem html_in_range_rejects:
  "map_option fst (updateCache (server html_at_1 slow_clock) new_state)
     = Some (Inl HtmlResponseError)
   \<and> map_option fst (GET (server html_at_1 slow_clock) None new_state)
     = Some (Inl HtmlResponseError)"
proof -
  have "map_option fst (updateCache (server html_at_1 slow_clock) new_state)
      = Some (Inl HtmlResponseError)"
    by code_simp
  moreover have "map_option fst (GET (server html_at_1 slow_clock) None new_state)
      = Some (Inl HtmlResponseError)"
  proof -
    let ?E = "server html_at_1 slow_clock"
    let ?st' = "new_state\<lparr>cache := new_cache\<lparr>draws := [(2, the_draw 2), (3, the_draw 3)]\<rparr>,
        sent := [3, 2, 1, 3, 2, 4, 8, 17, 34, 68, 137, 275, 550, 1100], ticks := Suc 0\<rparr>"
    have "CACHE_TTL_MS \<le> int (clock ?E (ticks new_state)) - updatedAt (cache new_state)"
      by (simp add: CACHE_TTL_MS_def server_def slow_clock_def new_state_def new_cache_def)
    then have "readyCache ?E new_state = updateCache ?E (new_state\<lparr>ticks := Suc (ticks new_state)\<rparr>)"
      by (rule readyCache_stale)
    also have "\<dots> = Some (Inl HtmlResponseError, ?st')"
      by code_simp
    finally show ?thesis
      by (simp add: GET_rejected)
  qed
  ultimately show ?thesis
    by (intro conjI)
qed

section \<open>The served response\<close>

lemma zero_counts_eq: "zero_counts = map (\<lambda>n. \<lparr>num = int n, count = 0\<rparr>) [1..<46]"
  by code_simp

lemma buildRanking_empty:
  "buildRanking [] b =
     Inr \<lparr>counts = zero_counts, ranking = zero_counts,
          top6 = [1, 2, 3, 4, 5, 6], next6 = [7, 8, 9, 10, 11, 12],
          top18 = [1, 2, 3, 4, 5, 6, 7, 8, 9, 10, 11, 12, 13, 14, 15, 16, 17, 18],
          hasData = False\<rparr>"
  by code_simp

lemma GET_served:
  assumes "readyCache E st = Some (Inr c, st')"
    and "buildRanking (map snd (draws c)) (param = Some ''1'') = Inr rk"
  shows "GET E param st =
     Some (Inr \<lparr>counts = counts rk, ranking = ranking rk, top6 = top6 rk, next6 = next6 rk,
                top18 = top18 rk, hasData = hasData rk, source = ''dhlottery'',
                updatedAtMs = updatedAt c, latestDraw = latest c,
                latestDate = (case map_of (draws c) (latest c) of
                                None \<Rightarrow> None | Some d \<Rightarrow> Some (drwNoDate d)),
                totalDraws = length (draws c),
                includeBonus = (param = Some ''1''),
                missingDraws = missing_list c,
                apiBlockedUntil = blockedUntil c\<rparr>, st')"
  using assms by (simp add: GET_def Let_def missing_list_def)

text \<open>
  Claim C10. When the cache that \<open>GET\<close> is about to serve (the cache as it is when fresh,
  the result of the sync otherwise) has no draws, \<open>GET\<close> answers, and its body has
  \<open>hasData\<close> false, \<open>totalDraws\<close> 0, \<open>latestDate\<close> null, \<open>counts\<close> with the 45 entries for
  the numbers 1 to 45 in this order, each with count 0, and \<open>ranking\<close> equal to \<open>counts\<close>.
\<close>

theorem empty_cache_response:
  assumes "readyCache E st = Some (Inr c, st')" and "draws c = []"
  shows "\<exists>r. GET E param st = Some (Inr r, st')
           \<and> hasData r = False \<and> totalDraws r = 0 \<and> latestDate r = None
           \<and> counts r = map (\<lambda>n. \<lparr>num = int n, count = 0\<rparr>) [1..<46]
           \<and> length (counts r) = 45
           \<and> ranking r = counts r"
proof -
  from assms(2) have "buildRanking (map snd (draws c)) (param = Some ''1'') =
      Inr \<lparr>counts = zero_counts, ranking = zero_counts,
           top6 = [1, 2, 3, 4, 5, 6], next6 = [7, 8, 9, 10, 11, 12],
           top18 = [1, 2, 3, 4, 5, 6, 7, 8, 9, 10, 11, 12, 13, 14, 15, 16, 17, 18],
           hasData = False\<rparr>"
    by (simp add: buildRanking_empty)
  from GET_served [OF assms(1) this] assms(2) show ?thesis
    by (simp add: zero_counts_eq)
qed

lemma first_visit_blocked:
  "readyCache (server all_html two_visits) new_state = Some (Inr (cache after_block), after_block)"
proof -
  let ?E = "server all_html two_visits"
  let ?st = "new_state\<lparr>ticks := Suc (ticks new_state)\<rparr>"
  have "CACHE_TTL_MS \<le> int (clock ?E (ticks new_state)) - updatedAt (cache new_state)"
    by (simp add: CACHE_TTL_MS_def server_def two_visits_def new_state_def new_cache_def)
  then have "readyCache ?E new_state = updateCache ?E ?st"
    by (rule readyCache_stale)
  moreover have b: "stillBlocked ?E ?st = (False, ?st)"
    by (rule stillBlocked_unset) (simp add: new_state_def new_cache_def)
  moreover have f: "findLatestDraw ?E ?st = Some (Inl HtmlResponseError, ?st\<lparr>sent := [1100]\<rparr>)"
    by code_simp
  ultimately show ?thesis
    using updateCache_html [OF b f]
    by (simp add: after_block_def new_state_def new_cache_def server_def two_visits_def
        BLOCK_TTL_MS_def numeral_3_eq_3)
qed

theorem empty_cache_response_witness:
  "\<exists>r. GET (server all_html two_visits) None new_state = Some (Inr r, after_block)
       \<and> hasData r = False \<and> totalDraws r = 0 \<and> latestDate r = None
       \<and> length (counts r) = 45 \<and> ranking r = counts r"
proof -
  have "draws (cache after_block) = []"
    by (simp add: after_block_def)
  from empty_cache_response [OF first_visit_blocked this, of None] show ?thesis
    by blast
qed










end
